theory Spec2Isabelle
  imports Complex_Main "HOL-Library.Multiset"
begin

section \<open>The alias table (include/ygm/random/alias_table.hpp)\<close>

text \<open>
  Weights are C++ doubles in the source. A finite double is a rational number, and an
  arithmetic operation on doubles is the exact operation followed by rounding. Every
  function below takes the rounding \<open>rnd\<close> as its first argument and applies it where
  the source computes a double: \<open>exact_arith\<close> gives exact arithmetic, \<open>round_double\<close>
  the rounding of IEEE 754 binary64. An item is the struct \<open>item {id, weight}\<close>, a
  bucket is the struct \<open>table_item {p, a, b}\<close>.
\<close>

record 'a item =
  item_id :: 'a
  weight :: rat

record 'a table_item =
  tbl_p :: rat
  tbl_a :: 'a
  tbl_b :: 'a

definition exact_arith :: "rat \<Rightarrow> rat" where
  "exact_arith x = x"

text \<open>
  Rounding to the nearest double, ties to the even significand. \<open>scale_significand\<close> scales a
  positive number by powers of two until it lies in \<open>[2^52, 2^53)\<close>, where the doubles
  are the integers; its fuel covers the exponents a double can have. Overflow to infinity
  and the coarser spacing of subnormal numbers are not modelled.
\<close>

fun scale_significand :: "nat \<Rightarrow> rat \<Rightarrow> int \<Rightarrow> rat \<times> int" where
  "scale_significand 0 m e = (m, e)"
| "scale_significand (Suc fuel) m e =
     (if m < 2 ^ 52 then scale_significand fuel (m * 2) (e - 1)
      else if m \<ge> 2 ^ 53 then scale_significand fuel (m / 2) (e + 1)
      else (m, e))"

definition round_half_even :: "rat \<Rightarrow> int" where
  "round_half_even m =
     (let f = \<lfloor>m\<rfloor>; r = m - of_int f
      in if r < 1 / 2 then f else if r > 1 / 2 then f + 1 else if even f then f else f + 1)"

definition round_double :: "rat \<Rightarrow> rat" where
  "round_double x =
     (if x = 0 then 0
      else (let (m, e) = scale_significand 2200 \<bar>x\<bar> 0
            in sgn x * of_int (round_half_even m) * (if e \<ge> 0 then 2 ^ nat e else 1 / 2 ^ nat (- e))))"

text \<open>A failed \<open>YGM_ASSERT_RELEASE\<close> ends the program.\<close>

datatype error = Assertion_failed

text \<open>The loop \<open>for (...) local_weight += itm.weight\<close>, starting from 0.0.\<close>

definition local_weight_of :: "(rat \<Rightarrow> rat) \<Rightarrow> 'a item list \<Rightarrow> rat" where
  "local_weight_of rnd items = foldl (\<lambda>acc itm. rnd (acc + weight itm)) 0 items"

subsection \<open>balance_weight\<close>

text \<open>
  The conversion of a double to \<open>int\<close> and \<open>std::fmod\<close> both truncate toward zero.
  The result of \<open>std::fmod\<close> is exact: it is computed from the exact quotient and is
  always a double.
\<close>

definition trunc :: "rat \<Rightarrow> int" where
  "trunc x = (if 0 \<le> x then \<lfloor>x\<rfloor> else \<lceil>x\<rceil>)"

definition fmod :: "rat \<Rightarrow> rat \<Rightarrow> rat" where
  "fmod x y = x - of_int (trunc (x / y)) * y"

definition target_weight_of :: "(rat \<Rightarrow> rat) \<Rightarrow> int \<Rightarrow> rat \<Rightarrow> rat" where
  "target_weight_of rnd nranks global_weight = rnd (global_weight / of_int nranks)"

definition initial_dest_rank :: "(rat \<Rightarrow> rat) \<Rightarrow> rat \<Rightarrow> rat \<Rightarrow> int" where
  "initial_dest_rank rnd target_weight prfx_sum_weight =
     trunc (rnd (prfx_sum_weight / target_weight))"

definition initial_curr_weight :: "rat \<Rightarrow> rat \<Rightarrow> rat" where
  "initial_curr_weight target_weight prfx_sum_weight = fmod prfx_sum_weight target_weight"

text \<open>
  The main loop of \<open>balance_weight\<close>. The loop reads \<open>m_local_items[i]\<close> with a live
  size check while it appends to the vector, so \<open>rest\<close> is the part of \<open>m_local_items\<close>
  from index \<open>i\<close> on and \<open>push_back\<close> appends to it. Each call of \<open>m_comm.async\<close> is
  recorded in \<open>sent\<close> as the destination rank with the items sent. The loop does not
  terminate for every target weight, so it takes fuel; \<open>None\<close> means the fuel ran out.
  The result is \<open>dest_rank\<close>, \<open>curr_weight\<close>, \<open>items_to_send\<close> and the messages.
  The statement \<open>curr_weight += weight_to_send\<close> is left out: the value is overwritten
  before it is read.
\<close>

fun balance_loop ::
  "(rat \<Rightarrow> rat) \<Rightarrow> nat \<Rightarrow> int \<Rightarrow> rat \<Rightarrow> 'a item list \<Rightarrow> int \<Rightarrow> rat \<Rightarrow> 'a item list
    \<Rightarrow> (int \<times> 'a item list) list
    \<Rightarrow> (int \<times> rat \<times> 'a item list \<times> (int \<times> 'a item list) list) option" where
  "balance_loop rnd fuel nranks target_weight [] dest_rank curr_weight items_to_send sent =
     Some (dest_rank, curr_weight, items_to_send, sent)"
| "balance_loop rnd 0 nranks target_weight (local_item # rest) dest_rank curr_weight
       items_to_send sent =
     None"
| "balance_loop rnd (Suc fuel) nranks target_weight (local_item # rest) dest_rank curr_weight
       items_to_send sent =
     (if rnd (curr_weight + weight local_item) \<ge> target_weight then
        (let remaining_weight = rnd (rnd (curr_weight + weight local_item) - target_weight);
             weight_to_send = rnd (weight local_item - remaining_weight);
             item_to_send = \<lparr>item_id = item_id local_item, weight = weight_to_send\<rparr>;
             items_to_send1 = items_to_send @ [item_to_send];
             sent1 = (if dest_rank < nranks then sent @ [(dest_rank, items_to_send1)] else sent);
             rest1 = (if remaining_weight \<ge> target_weight
                      then rest @ [\<lparr>item_id = item_id local_item, weight = remaining_weight\<rparr>]
                      else rest);
             curr_weight1 = (if remaining_weight \<ge> target_weight then 0 else remaining_weight);
             items_to_send2 = (if curr_weight1 \<noteq> 0
                               then [\<lparr>item_id = item_id local_item, weight = curr_weight1\<rparr>]
                               else [])
         in balance_loop rnd fuel nranks target_weight rest1 (dest_rank + 1) curr_weight1
              items_to_send2 sent1)
      else
        balance_loop rnd fuel nranks target_weight rest dest_rank
          (rnd (curr_weight + weight local_item)) (items_to_send @ [local_item]) sent)"

text \<open>
  The part of \<open>balance_weight\<close> between the collectives and the closing barrier, on one
  rank: \<open>nranks\<close> is \<open>m_comm.size()\<close>, \<open>global_weight\<close> and \<open>prfx_sum_weight\<close> are what
  \<open>ygm::sum\<close> and \<open>ygm::prefix_sum\<close> returned. The result is the list of messages the
  rank sends. With a target weight of zero the source divides by zero; the statements
  below that depend on the arithmetic take the target weight to be positive.
\<close>

definition balance_weight ::
  "(rat \<Rightarrow> rat) \<Rightarrow> nat \<Rightarrow> int \<Rightarrow> rat \<Rightarrow> rat \<Rightarrow> 'a item list
    \<Rightarrow> (int \<times> 'a item list) list option" where
  "balance_weight rnd fuel nranks global_weight prfx_sum_weight local_items =
     (let target_weight = target_weight_of rnd nranks global_weight;
          dest_rank = initial_dest_rank rnd target_weight prfx_sum_weight;
          curr_weight = initial_curr_weight target_weight prfx_sum_weight
      in case balance_loop rnd fuel nranks target_weight local_items dest_rank curr_weight [] [] of
           None \<Rightarrow> None
         | Some (dest_rank1, curr_weight1, items_to_send, sent) \<Rightarrow>
             Some (if length items_to_send > 0 \<and> dest_rank1 < nranks
                   then sent @ [(dest_rank1, items_to_send)] else sent))"

subsection \<open>The collectives and all ranks together\<close>

text \<open>
  Modelled from the spec: \<open>ygm::sum\<close> is not among the sources; it is the total of the
  values of all ranks. The model adds them in rank order.
\<close>

definition ygm_sum :: "(rat \<Rightarrow> rat) \<Rightarrow> rat list \<Rightarrow> rat" where
  "ygm_sum rnd values = foldl (\<lambda>acc v. rnd (acc + v)) 0 values"

text \<open>
  \<open>ygm::prefix_sum\<close> is not among the sources either, so the balancer of all ranks takes
  it as an argument: \<open>prefix_sum values r\<close> is what the collective returns on rank \<open>r\<close>.
  Two collectives are defined. The first is the one of the specification. The second is not:
  it is the one that the comment on \<open>curr_weight\<close> in \<open>balance_weight\<close> describes
  (the weight being contributed by other processors). Every statement below names the
  collective it is about.
\<close>

text \<open>
  Modelled from the spec: the inclusive prefix sum \<open>P_r\<close>, the total of the ranks up to
  and including \<open>r\<close>.
\<close>

definition prefix_sum_inclusive :: "(rat \<Rightarrow> rat) \<Rightarrow> rat list \<Rightarrow> nat \<Rightarrow> rat" where
  "prefix_sum_inclusive rnd values r = ygm_sum rnd (take (Suc r) values)"

text \<open>
  Not the specification's collective: the exclusive prefix sum \<open>P_{r-1}\<close>, the total of
  the ranks before \<open>r\<close>.
\<close>

definition prefix_sum_exclusive :: "(rat \<Rightarrow> rat) \<Rightarrow> rat list \<Rightarrow> nat \<Rightarrow> rat" where
  "prefix_sum_exclusive rnd values r = ygm_sum rnd (take r values)"

text \<open>
  The messages of all ranks, rank by rank. \<open>ranks ! r\<close> is \<open>m_local_items\<close> on rank
  \<open>r\<close>; the number of ranks is the length of the list.
\<close>

definition balance_sends ::
  "(rat \<Rightarrow> rat) \<Rightarrow> nat \<Rightarrow> (rat list \<Rightarrow> nat \<Rightarrow> rat) \<Rightarrow> 'a item list list
    \<Rightarrow> (int \<times> 'a item list) list option list" where
  "balance_sends rnd fuel prefix_sum ranks =
     (let local_weights = map (local_weight_of rnd) ranks;
          global_weight = ygm_sum rnd local_weights
      in map (\<lambda>r. balance_weight rnd fuel (int (length ranks)) global_weight
                     (prefix_sum local_weights r) (ranks ! r))
           [0..<length ranks])"

text \<open>
  The handler of a message appends its items to \<open>new_local_items\<close> of the destination.
  After the barrier rank \<open>k\<close> holds the items of all messages addressed to it. Messages
  of one sender arrive in the order sent; the model takes the senders in rank order.
\<close>

definition received :: "nat \<Rightarrow> (int \<times> 'a item list) list \<Rightarrow> 'a item list" where
  "received k msgs = concat (map snd (filter (\<lambda>m. fst m = int k) msgs))"

definition balance_all ::
  "(rat \<Rightarrow> rat) \<Rightarrow> nat \<Rightarrow> (rat list \<Rightarrow> nat \<Rightarrow> rat) \<Rightarrow> 'a item list list
    \<Rightarrow> 'a item list list option" where
  "balance_all rnd fuel prefix_sum ranks =
     (let sends = balance_sends rnd fuel prefix_sum ranks
      in if list_all (\<lambda>m. m \<noteq> None) sends
         then Some (map (\<lambda>k. received k (concat (map the sends))) [0..<length ranks])
         else None)"

text \<open>
  Modelled from the spec: \<open>ygm::is_same\<close> is not among the sources; it is the all-equal
  predicate over the values of all ranks under the given comparison.
\<close>

definition ygm_is_same :: "(rat \<Rightarrow> rat \<Rightarrow> bool) \<Rightarrow> rat list \<Rightarrow> bool" where
  "ygm_is_same equal values = list_all (\<lambda>x. list_all (\<lambda>y. equal x y) values) values"

text \<open>
  \<open>is_balanced\<close> on rank \<open>r\<close>, where \<open>ranks\<close> are the items of all ranks. The
  literal \<open>1e-6\<close> is the double nearest to that number.
\<close>

definition is_balanced ::
  "(rat \<Rightarrow> rat) \<Rightarrow> rat \<Rightarrow> 'a item list list \<Rightarrow> nat \<Rightarrow> error + bool" where
  "is_balanced rnd target ranks r =
     (let local_weight = local_weight_of rnd (ranks ! r);
          dif = \<bar>rnd (target - local_weight)\<bar>
      in if \<not> dif < rnd (1 / 10 ^ 6) then Inl Assertion_failed
         else Inr (ygm_is_same (\<lambda>a b. \<bar>rnd (a - b)\<bar> < rnd (1 / 10 ^ 6))
                     (map (local_weight_of rnd) ranks)))"

text \<open>The two assertions that close \<open>balance_weight\<close>, on rank \<open>r\<close>.\<close>

definition balance_asserts ::
  "(rat \<Rightarrow> rat) \<Rightarrow> rat \<Rightarrow> 'a item list list \<Rightarrow> nat \<Rightarrow> error + unit" where
  "balance_asserts rnd target_weight ranks r =
     (if \<not> length (ranks ! r) > 0 then Inl Assertion_failed
      else case is_balanced rnd target_weight ranks r of
             Inl e \<Rightarrow> Inl e
           | Inr balanced \<Rightarrow> if balanced then Inr () else Inl Assertion_failed)"

text \<open>
  \<open>balance_weight\<close> on all ranks: the collectives, the messages, and the assertions on
  every rank. \<open>None\<close> is a loop that ran out of fuel, \<open>Inl\<close> an assertion that
  failed on some rank, \<open>Inr\<close> the new \<open>m_local_items\<close> of every rank.
\<close>

definition balance_weight_all ::
  "(rat \<Rightarrow> rat) \<Rightarrow> nat \<Rightarrow> (rat list \<Rightarrow> nat \<Rightarrow> rat) \<Rightarrow> 'a item list list
    \<Rightarrow> (error + 'a item list list) option" where
  "balance_weight_all rnd fuel prefix_sum ranks =
     (case balance_all rnd fuel prefix_sum ranks of
        None \<Rightarrow> None
      | Some new_ranks \<Rightarrow>
          (let target_weight = target_weight_of rnd (int (length ranks))
                                 (ygm_sum rnd (map (local_weight_of rnd) ranks))
           in if list_all (\<lambda>r. balance_asserts rnd target_weight new_ranks r = Inr ())
                   [0..<length ranks]
              then Some (Inr new_ranks) else Some (Inl Assertion_failed)))"

subsection \<open>Measures used in the statements\<close>


definition wsum :: "('a \<Rightarrow> rat) \<Rightarrow> 'a item list \<Rightarrow> rat" where
  "wsum g items = sum_list (map (\<lambda>itm. g (item_id itm) * weight itm) items)"

definition closing_send ::
  "int \<Rightarrow> int \<times> rat \<times> 'a item list \<times> (int \<times> 'a item list) list
    \<Rightarrow> (int \<times> 'a item list) list" where
  "closing_send nranks res =
     (case res of (dest_rank, curr_weight, items_to_send, sent) \<Rightarrow>
        if length items_to_send > 0 \<and> dest_rank < nranks
        then sent @ [(dest_rank, items_to_send)] else sent)"


subsection \<open>build_local_alias_table\<close>

text \<open>
  A \<open>std::vector\<close> is a list in index order; \<open>back()\<close> is \<open>last\<close> and
  \<open>pop_back()\<close> is \<open>butlast\<close>. The first loop of the function sends every item to
  \<open>light_items\<close> or to \<open>heavy_items\<close>, in order.
\<close>

definition light_items_of :: "rat \<Rightarrow> 'a item list \<Rightarrow> 'a item list" where
  "light_items_of avg_weight items = filter (\<lambda>itm. weight itm < avg_weight) items"

definition heavy_items_of :: "rat \<Rightarrow> 'a item list \<Rightarrow> 'a item list" where
  "heavy_items_of avg_weight items = filter (\<lambda>itm. \<not> weight itm < avg_weight) items"

text \<open>
  The loop \<open>while (!light_items.empty() && !heavy_items.empty())\<close>. The reference
  \<open>h\<close> points into \<open>heavy_items\<close>, so the assignment to \<open>h.weight\<close> changes the
  last element of that vector in place.
\<close>

function vose_loop ::
  "(rat \<Rightarrow> rat) \<Rightarrow> rat \<Rightarrow> 'a item list \<Rightarrow> 'a item list \<Rightarrow> 'a table_item list
    \<Rightarrow> 'a item list \<times> 'a item list \<times> 'a table_item list" where
  "vose_loop rnd avg_weight light heavy tbl =
     (if light \<noteq> [] \<and> heavy \<noteq> [] then
        (let l = last light;
             h = last heavy;
             tbl_itm = \<lparr>tbl_p = weight l, tbl_a = item_id l, tbl_b = item_id h\<rparr>;
             h' = h\<lparr>weight := rnd (rnd (weight h + weight l) - avg_weight)\<rparr>;
             light' = butlast light
         in if weight h' < avg_weight
            then vose_loop rnd avg_weight (light' @ [h']) (butlast heavy) (tbl @ [tbl_itm])
            else vose_loop rnd avg_weight light' (butlast heavy @ [h']) (tbl @ [tbl_itm]))
      else (light, heavy, tbl))"
  by pat_completeness auto
termination
  by (relation "measure (\<lambda>(rnd, avg_weight, light, heavy, tbl).
        length light + 2 * length heavy)")
     (auto simp: Let_def)

declare vose_loop.simps [simp del]

text \<open>
  The two flushing loops pop from the back until the vector is empty, so they emit one
  bucket per item, last item first. \<open>dflt\<close> stands for the value \<open>Item()\<close>.
\<close>

definition flush_items :: "rat \<Rightarrow> 'a \<Rightarrow> 'a item list \<Rightarrow> 'a table_item list" where
  "flush_items avg_weight dflt items =
     map (\<lambda>itm. \<lparr>tbl_p = avg_weight, tbl_a = item_id itm, tbl_b = dflt\<rparr>) (rev items)"

text \<open>
  The function returns the table and \<open>m_avg_weight\<close>. With no local item the source
  divides 0.0 by 0; the partition is empty then and the quotient is never compared.
\<close>

definition build_local_alias_table ::
  "(rat \<Rightarrow> rat) \<Rightarrow> 'a \<Rightarrow> 'a item list \<Rightarrow> 'a table_item list \<times> rat" where
  "build_local_alias_table rnd dflt local_items =
     (let local_weight = local_weight_of rnd local_items;
          avg_weight = rnd (local_weight / of_nat (length local_items));
          (light, heavy, tbl) =
             vose_loop rnd avg_weight (light_items_of avg_weight local_items)
               (heavy_items_of avg_weight local_items) []
      in (tbl @ flush_items avg_weight dflt heavy @ flush_items avg_weight dflt light,
          avg_weight))"

subsection \<open>async_sample\<close>

text \<open>
  The body of \<open>sample_wrapper\<close> once the bucket \<open>tbl_itm\<close> has been read; \<open>f\<close> is
  the value \<open>m_bucket_weight_dist\<close> returns, which the source draws only when
  \<open>tbl_itm.p < m_avg_weight\<close>. \<open>takes_b\<close> says whether the assignment
  \<open>s = tbl_itm.b\<close> is executed.
\<close>

definition takes_b :: "rat \<Rightarrow> 'a table_item \<Rightarrow> rat \<Rightarrow> bool" where
  "takes_b m_avg_weight tbl_itm f =
     (if tbl_p tbl_itm < m_avg_weight then (if f > tbl_p tbl_itm then True else False)
      else False)"

definition sample_wrapper :: "rat \<Rightarrow> 'a table_item \<Rightarrow> rat \<Rightarrow> 'a" where
  "sample_wrapper m_avg_weight tbl_itm f =
     (if takes_b m_avg_weight tbl_itm f then tbl_b tbl_itm else tbl_a tbl_itm)"

section \<open>The work queue (include/ygm/container/work_queue.hpp)\<close>

subsection \<open>Queue policies (include/ygm/container/detail/work_queue_policy.hpp)\<close>

text \<open>
  The template argument \<open>QueuePolicy\<close>; \<open>priority_policy\<close> carries its comparator
  \<open>Comp\<close>. The three containers (\<open>std::priority_queue\<close>, \<open>std::queue\<close>,
  \<open>std::stack\<close>) are lists of the items they hold, in insertion order.
\<close>

datatype 'a policy = priority_policy "'a \<Rightarrow> 'a \<Rightarrow> bool" | fifo_policy | lifo_policy

text \<open>
  \<open>std::priority_queue::top\<close> belongs to the C++ standard library: it returns an element
  of the queue that no element exceeds under \<open>Comp\<close>, and which one among several is
  left open. The model scans the list and keeps the first such element.
\<close>

definition pq_top :: "('a \<Rightarrow> 'a \<Rightarrow> bool) \<Rightarrow> 'a list \<Rightarrow> 'a" where
  "pq_top cmp q = foldl (\<lambda>m x. if cmp m x then x else m) (hd q) (tl q)"

fun policy_push :: "'a policy \<Rightarrow> 'a list \<Rightarrow> 'a \<Rightarrow> 'a list" where
  "policy_push pol q item = q @ [item]"

text \<open>\<open>top\<close> and \<open>pop\<close> are only called on a queue that is not empty.\<close>

fun policy_top :: "'a policy \<Rightarrow> 'a list \<Rightarrow> 'a" where
  "policy_top (priority_policy cmp) q = pq_top cmp q"
| "policy_top fifo_policy q = hd q"
| "policy_top lifo_policy q = last q"

fun policy_pop :: "'a policy \<Rightarrow> 'a list \<Rightarrow> 'a list" where
  "policy_pop (priority_policy cmp) q = remove1 (pq_top cmp q) q"
| "policy_pop fifo_policy q = tl q"
| "policy_pop lifo_policy q = butlast q"

fun policy_empty :: "'a policy \<Rightarrow> 'a list \<Rightarrow> bool" where
  "policy_empty pol q = (q = [])"

fun policy_size :: "'a policy \<Rightarrow> 'a list \<Rightarrow> nat" where
  "policy_size pol q = length q"

subsection \<open>The queue object and the communicator\<close>

text \<open>
  The work function is user code that receives a handle to the queue and the item. It is
  modelled by its effect: it changes the user's state \<open>'u\<close> and calls
  \<open>local_insert\<close> on its own queue once for every item of the list it returns.
\<close>

record ('a, 'u) work_queue =
  m_local_queue :: "'a list"
  m_work_lambda :: "'u \<Rightarrow> 'a \<Rightarrow> 'u \<times> 'a list"
  m_callback_registered :: bool

text \<open>
  The lambda that \<open>register_processing_callback\<close> hands to the communicator captures
  \<open>this\<close>, so the state of one rank is a store of queue objects by address, the
  communicator's list of registered pre-barrier callbacks (each the address it captured)
  and the user's state.
\<close>

record ('a, 'u) rank_state =
  objects :: "nat \<Rightarrow> ('a, 'u) work_queue"
  pre_barrier_callbacks :: "nat list"
  user_state :: 'u

definition upd_obj ::
  "nat \<Rightarrow> (('a, 'u) work_queue \<Rightarrow> ('a, 'u) work_queue) \<Rightarrow> ('a, 'u) rank_state
    \<Rightarrow> ('a, 'u) rank_state" where
  "upd_obj this f s = s\<lparr>objects := (objects s)(this := f (objects s this))\<rparr>"

text \<open>The constructor \<open>work_queue(comm, work_fn)\<close> of the object at address \<open>this\<close>.\<close>

definition work_queue_new ::
  "nat \<Rightarrow> ('u \<Rightarrow> 'a \<Rightarrow> 'u \<times> 'a list) \<Rightarrow> ('a, 'u) rank_state \<Rightarrow> ('a, 'u) rank_state" where
  "work_queue_new this work_fn s =
     upd_obj this (\<lambda>_. \<lparr>m_local_queue = [], m_work_lambda = work_fn,
                         m_callback_registered = False\<rparr>) s"

definition register_processing_callback ::
  "nat \<Rightarrow> ('a, 'u) rank_state \<Rightarrow> ('a, 'u) rank_state" where
  "register_processing_callback this s =
     upd_obj this (\<lambda>w. w\<lparr>m_callback_registered := True\<rparr>)
       (s\<lparr>pre_barrier_callbacks := pre_barrier_callbacks s @ [this]\<rparr>)"

definition local_insert ::
  "'a policy \<Rightarrow> nat \<Rightarrow> 'a \<Rightarrow> ('a, 'u) rank_state \<Rightarrow> ('a, 'u) rank_state" where
  "local_insert pol this item s =
     (let s1 = upd_obj this (\<lambda>w. w\<lparr>m_local_queue := policy_push pol (m_local_queue w) item\<rparr>) s
      in if \<not> m_callback_registered (objects s1 this)
         then register_processing_callback this s1 else s1)"

definition local_has_work :: "'a policy \<Rightarrow> nat \<Rightarrow> ('a, 'u) rank_state \<Rightarrow> bool" where
  "local_has_work pol this s = (\<not> policy_empty pol (m_local_queue (objects s this)))"

definition local_size :: "'a policy \<Rightarrow> nat \<Rightarrow> ('a, 'u) rank_state \<Rightarrow> nat" where
  "local_size pol this s = policy_size pol (m_local_queue (objects s this))"

definition local_clear :: "nat \<Rightarrow> ('a, 'u) rank_state \<Rightarrow> ('a, 'u) rank_state" where
  "local_clear this s = upd_obj this (\<lambda>w. w\<lparr>m_local_queue := []\<rparr>) s"

text \<open>One call of \<open>m_work_lambda\<close> on \<open>item\<close>.\<close>

definition apply_work_lambda ::
  "'a policy \<Rightarrow> nat \<Rightarrow> 'a \<Rightarrow> ('a, 'u) rank_state \<Rightarrow> ('a, 'u) rank_state" where
  "apply_work_lambda pol this item s =
     (let (u, inserted) = m_work_lambda (objects s this) (user_state s) item
      in foldl (\<lambda>s1 x. local_insert pol this x s1) (s\<lparr>user_state := u\<rparr>) inserted)"

text \<open>
  The loop of \<open>local_process_all\<close> runs for as long as the work function keeps the queue
  filled, so it takes fuel: \<open>None\<close> means the fuel ran out before the queue was empty.
\<close>

fun local_process_all ::
  "nat \<Rightarrow> 'a policy \<Rightarrow> nat \<Rightarrow> ('a, 'u) rank_state \<Rightarrow> ('a, 'u) rank_state option" where
  "local_process_all 0 pol this s =
     (if \<not> policy_empty pol (m_local_queue (objects s this)) then None else Some s)"
| "local_process_all (Suc fuel) pol this s =
     (if \<not> policy_empty pol (m_local_queue (objects s this)) then
        (let item = policy_top pol (m_local_queue (objects s this));
             s1 = upd_obj this (\<lambda>w. w\<lparr>m_local_queue := policy_pop pol (m_local_queue w)\<rparr>) s
         in local_process_all fuel pol this (apply_work_lambda pol this item s1))
      else Some s)"

text \<open>The lambda \<open>process_all_lambda\<close> of \<open>register_processing_callback\<close>.\<close>

definition process_all_lambda ::
  "nat \<Rightarrow> 'a policy \<Rightarrow> nat \<Rightarrow> ('a, 'u) rank_state \<Rightarrow> ('a, 'u) rank_state option" where
  "process_all_lambda fuel pol this s =
     (case local_process_all fuel pol this s of
        None \<Rightarrow> None
      | Some s1 \<Rightarrow> Some (upd_obj this (\<lambda>w. w\<lparr>m_callback_registered := False\<rparr>) s1))"

text \<open>
  Modelled from the spec: \<open>comm::barrier\<close> is not among the sources. The spec has it invoke
  the registered pre-barrier callbacks on the rank, again for those registered meanwhile,
  until none is left. Messages from other ranks are outside this model of one rank.
\<close>

fun barrier ::
  "nat \<Rightarrow> 'a policy \<Rightarrow> ('a, 'u) rank_state \<Rightarrow> ('a, 'u) rank_state option" where
  "barrier 0 pol s = (if pre_barrier_callbacks s = [] then Some s else None)"
| "barrier (Suc fuel) pol s =
     (case pre_barrier_callbacks s of
        [] \<Rightarrow> Some s
      | this # cbs \<Rightarrow>
          (case process_all_lambda fuel pol this (s\<lparr>pre_barrier_callbacks := cbs\<rparr>) of
             None \<Rightarrow> None
           | Some s1 \<Rightarrow> barrier fuel pol s1))"

definition clear ::
  "nat \<Rightarrow> 'a policy \<Rightarrow> nat \<Rightarrow> ('a, 'u) rank_state \<Rightarrow> ('a, 'u) rank_state option" where
  "clear fuel pol this s = barrier fuel pol (local_clear this s)"

text \<open>
  The destructor: a barrier, then \<open>YGM_ASSERT_RELEASE(local_size() == 0)\<close>; \<open>Inl\<close> is
  the failed assertion.
\<close>

definition work_queue_delete ::
  "nat \<Rightarrow> 'a policy \<Rightarrow> nat \<Rightarrow> ('a, 'u) rank_state \<Rightarrow> (error + ('a, 'u) rank_state) option" where
  "work_queue_delete fuel pol this s =
     (case barrier fuel pol s of
        None \<Rightarrow> None
      | Some s1 \<Rightarrow> Some (if local_size pol this s1 = 0 then Inr s1 else Inl Assertion_failed))"

text \<open>
  The move constructor builds the object at \<open>this\<close> from the one at \<open>other\<close>. A moved-from
  standard container is left empty, which is what the tests assert after each move.
\<close>

definition work_queue_move ::
  "'a policy \<Rightarrow> nat \<Rightarrow> nat \<Rightarrow> ('a, 'u) rank_state \<Rightarrow> ('a, 'u) rank_state" where
  "work_queue_move pol this other s =
     (let s1 = upd_obj this (\<lambda>_. \<lparr>m_local_queue = m_local_queue (objects s other),
                                   m_work_lambda = m_work_lambda (objects s other),
                                   m_callback_registered = False\<rparr>) s;
          s2 = upd_obj other (\<lambda>w. w\<lparr>m_local_queue := []\<rparr>) s1;
          s3 = upd_obj other (\<lambda>w. w\<lparr>m_callback_registered := False\<rparr>) s2
      in if local_has_work pol this s3 then register_processing_callback this s3 else s3)"

text \<open>The move assignment \<open>operator=(self_type&&)\<close>.\<close>

definition move_assign ::
  "'a policy \<Rightarrow> nat \<Rightarrow> nat \<Rightarrow> ('a, 'u) rank_state \<Rightarrow> ('a, 'u) rank_state" where
  "move_assign pol this other s =
     (if this = other then s
      else
        (let s1 = upd_obj this (\<lambda>w. w\<lparr>m_local_queue := m_local_queue (objects s other)\<rparr>) s;
             s2 = upd_obj other (\<lambda>w. w\<lparr>m_local_queue := []\<rparr>) s1;
             s3 = upd_obj this (\<lambda>w. w\<lparr>m_callback_registered := False\<rparr>) s2;
             s4 = upd_obj other (\<lambda>w. w\<lparr>m_callback_registered := False\<rparr>) s3
         in if local_has_work pol this s4 then register_processing_callback this s4 else s4))"

text \<open>
  A rank before any queue is built: no callback is registered, and every address holds an
  empty, unregistered object.
\<close>

definition rank_init :: "'u \<Rightarrow> ('a, 'u) rank_state" where
  "rank_init u =
     \<lparr>objects = (\<lambda>_. \<lparr>m_local_queue = [], m_work_lambda = (\<lambda>u x. (u, [])),
                       m_callback_registered = False\<rparr>),
      pre_barrier_callbacks = [], user_state = u\<rparr>"

text \<open>
  A queue that holds items has its flag set.
\<close>

definition nonempty_registered :: "('a, 'u) rank_state \<Rightarrow> bool" where
  "nonempty_registered s \<longleftrightarrow>
     (\<forall>a. m_local_queue (objects s a) \<noteq> [] \<longrightarrow> m_callback_registered (objects s a))"

text \<open>
  The invariant of the queue objects between two operations: a queue that holds items has
  its flag set, and a queue whose flag is set has a callback registered.
\<close>

definition wq_inv :: "('a, 'u) rank_state \<Rightarrow> bool" where
  "wq_inv s \<longleftrightarrow>
     (\<forall>a. (m_local_queue (objects s a) \<noteq> [] \<longrightarrow> m_callback_registered (objects s a)) \<and>
          (m_callback_registered (objects s a) \<longrightarrow> a \<in> set (pre_barrier_callbacks s)))"

text \<open>
  What the operations on the queue at \<open>this\<close> may change: no other object, no
  registered callback is lost, and the flag of \<open>this\<close> is only set together with a
  registration.
\<close>

definition grows :: "nat \<Rightarrow> ('a, 'u) rank_state \<Rightarrow> ('a, 'u) rank_state \<Rightarrow> bool" where
  "grows this s s' \<longleftrightarrow>
     (\<forall>a. a \<noteq> this \<longrightarrow> objects s' a = objects s a) \<and>
     set (pre_barrier_callbacks s) \<subseteq> set (pre_barrier_callbacks s') \<and>
     (m_callback_registered (objects s' this)
        \<longrightarrow> m_callback_registered (objects s this) \<or> this \<in> set (pre_barrier_callbacks s'))"

text \<open>
  The states a program can reach on one rank: it starts with no queue, and then builds
  queues, runs user code, and calls the public operations of the queues and the barrier
  of the communicator, in any order and on any object.
\<close>

inductive reachable :: "'a policy \<Rightarrow> ('a, 'u) rank_state \<Rightarrow> bool" for pol :: "'a policy" where
  reach_init: "reachable pol (rank_init u)"
| reach_user: "reachable pol s \<Longrightarrow> reachable pol (s\<lparr>user_state := u\<rparr>)"
| reach_new: "reachable pol s \<Longrightarrow> reachable pol (work_queue_new this work_fn s)"
| reach_insert: "reachable pol s \<Longrightarrow> reachable pol (local_insert pol this item s)"
| reach_process:
    "reachable pol s \<Longrightarrow> local_process_all fuel pol this s = Some s' \<Longrightarrow> reachable pol s'"
| reach_local_clear: "reachable pol s \<Longrightarrow> reachable pol (local_clear this s)"
| reach_clear: "reachable pol s \<Longrightarrow> clear fuel pol this s = Some s' \<Longrightarrow> reachable pol s'"
| reach_barrier: "reachable pol s \<Longrightarrow> barrier fuel pol s = Some s' \<Longrightarrow> reachable pol s'"
| reach_move: "reachable pol s \<Longrightarrow> reachable pol (work_queue_move pol this other s)"
| reach_assign: "reachable pol s \<Longrightarrow> reachable pol (move_assign pol this other s)"
| reach_delete:
    "reachable pol s \<Longrightarrow> work_queue_delete fuel pol this s = Some (Inr s')
      \<Longrightarrow> reachable pol s'"

section \<open>Properties of the alias table\<close>

lemma vose_loop_length:
  "vose_loop rnd avg light heavy tbl = (light', heavy', tbl')
    \<Longrightarrow> length tbl' + length light' + length heavy' = length tbl + length light + length heavy"
proof (induction rnd avg light heavy tbl rule: vose_loop.induct)
  case (1 rnd avg light heavy tbl)
  show ?case
  proof (cases "light \<noteq> [] \<and> heavy \<noteq> []")
    case False
    with "1.prems" show ?thesis by (subst (asm) vose_loop.simps) auto
  next
    case True
    let ?h = "(last heavy)\<lparr>weight := rnd (rnd (weight (last heavy) + weight (last light)) - avg)\<rparr>"
    let ?e = "\<lparr>tbl_p = weight (last light), tbl_a = item_id (last light),
               tbl_b = item_id (last heavy)\<rparr>"
    from True obtain ls l hs h where sp: "light = ls @ [l]" "heavy = hs @ [h]"
      by (metis rev_exhaust)
    show ?thesis
    proof (cases "weight ?h < avg")
      case lt: True
      with True "1.prems" have "vose_loop rnd avg (butlast light @ [?h]) (butlast heavy) (tbl @ [?e])
          = (light', heavy', tbl')"
        by (subst (asm) vose_loop.simps) (simp add: Let_def)
      from "1.IH"(1)[OF True refl refl refl refl refl lt this]
      show ?thesis by (simp add: sp)
    next
      case ge: False
      with True "1.prems" have "vose_loop rnd avg (butlast light) (butlast heavy @ [?h]) (tbl @ [?e])
          = (light', heavy', tbl')"
        by (subst (asm) vose_loop.simps) (simp add: Let_def)
      from "1.IH"(2)[OF True refl refl refl refl refl ge this]
      show ?thesis by (simp add: sp)
    qed
  qed
qed

lemma partition_length:
  "length (light_items_of avg items) + length (heavy_items_of avg items) = length items"
  unfolding light_items_of_def heavy_items_of_def
  by (induction items) auto

text \<open>
  C6. After the Vose construction the local alias table has exactly as many buckets as
  the rank has items, whatever the weights are, however they split into heavy and light,
  and whatever the rounding of the arithmetic is.
\<close>

theorem build_local_alias_table_length:
  "length (fst (build_local_alias_table rnd dflt local_items)) = length local_items"
proof -
  define avg where "avg = rnd (local_weight_of rnd local_items / of_nat (length local_items))"
  obtain light heavy tbl where
    v: "vose_loop rnd avg (light_items_of avg local_items) (heavy_items_of avg local_items) []
          = (light, heavy, tbl)"
    by (metis prod_cases3)
  from vose_loop_length[OF v] partition_length[of avg local_items]
  have "length tbl + length light + length heavy = length local_items" by simp
  with v show ?thesis
    by (simp add: build_local_alias_table_def Let_def avg_def flush_items_def)
qed

theorem build_local_alias_table_length_witness:
  "length (fst (build_local_alias_table round_double (0::nat)
      [\<lparr>item_id = 1, weight = 1\<rparr>, \<lparr>item_id = 2, weight = 5\<rparr>, \<lparr>item_id = 3, weight = 0\<rparr>])) = 3"
  using build_local_alias_table_length[of round_double "0::nat"
      "[\<lparr>item_id = 1, weight = 1\<rparr>, \<lparr>item_id = 2, weight = 5\<rparr>, \<lparr>item_id = 3, weight = 0\<rparr>]"]
  by simp

text \<open>
  C5. Once a bucket \<open>(p, a, b)\<close> is drawn: when \<open>p < avg_weight\<close> the drawn
  \<open>f\<close> selects \<open>b\<close> exactly when \<open>f > p\<close> and \<open>a\<close> otherwise; when
  \<open>p = avg_weight\<close> the assignment of \<open>b\<close> is never executed and \<open>a\<close> is selected.
\<close>

theorem async_sample_selection:
  "(tbl_p tbl_itm < avg_weight \<longrightarrow>
      (takes_b avg_weight tbl_itm f \<longleftrightarrow> f > tbl_p tbl_itm) \<and>
      sample_wrapper avg_weight tbl_itm f
        = (if f > tbl_p tbl_itm then tbl_b tbl_itm else tbl_a tbl_itm)) \<and>
   (tbl_p tbl_itm = avg_weight \<longrightarrow>
      \<not> takes_b avg_weight tbl_itm f \<and> sample_wrapper avg_weight tbl_itm f = tbl_a tbl_itm)"
  by (simp add: takes_b_def sample_wrapper_def)

theorem async_sample_selection_witness:
  "takes_b 2 \<lparr>tbl_p = 1, tbl_a = ''x'', tbl_b = ''y''\<rparr> (3/2) \<and>
   sample_wrapper 2 \<lparr>tbl_p = 1, tbl_a = ''x'', tbl_b = ''y''\<rparr> (3/2) = ''y'' \<and>
   \<not> takes_b 2 \<lparr>tbl_p = 1, tbl_a = ''x'', tbl_b = ''y''\<rparr> (1/2) \<and>
   sample_wrapper 2 \<lparr>tbl_p = 1, tbl_a = ''x'', tbl_b = ''y''\<rparr> (1/2) = ''x'' \<and>
   \<not> takes_b 2 \<lparr>tbl_p = 2, tbl_a = ''x'', tbl_b = ''y''\<rparr> (1/2) \<and>
   sample_wrapper 2 \<lparr>tbl_p = 2, tbl_a = ''x'', tbl_b = ''y''\<rparr> (1/2) = ''x''"
  using async_sample_selection[of "\<lparr>tbl_p = 1, tbl_a = ''x'', tbl_b = ''y''\<rparr>" 2 "3/2"]
    async_sample_selection[of "\<lparr>tbl_p = 1, tbl_a = ''x'', tbl_b = ''y''\<rparr>" 2 "1/2"]
    async_sample_selection[of "\<lparr>tbl_p = 2, tbl_a = ''x'', tbl_b = ''y''\<rparr>" 2 "1/2"]
  by simp

subsection \<open>The balancer in exact arithmetic\<close>


lemma foldl_add_weight:
  "foldl (\<lambda>acc itm. acc + weight itm) a items = a + sum_list (map weight items)"
  by (induction items arbitrary: a) simp_all

lemma local_weight_of_exact:
  "local_weight_of exact_arith items = sum_list (map weight items)"
  by (simp add: local_weight_of_def foldl_add_weight exact_arith_def)



lemma trunc_nonneg: "0 \<le> x \<Longrightarrow> trunc x = \<lfloor>x\<rfloor>"
  by (simp add: trunc_def)

lemma floor_decompose:
  assumes "0 < (T::rat)"
  shows "0 \<le> p - of_int \<lfloor>p / T\<rfloor> * T" "p - of_int \<lfloor>p / T\<rfloor> * T < T"
proof -
  have "of_int \<lfloor>p / T\<rfloor> * T \<le> p"
    by (metis assms of_int_floor_le pos_le_divide_eq)
  then show "0 \<le> p - of_int \<lfloor>p / T\<rfloor> * T" by simp
  have "p / T < of_int \<lfloor>p / T\<rfloor> + 1" by linarith
  then have "p < (of_int \<lfloor>p / T\<rfloor> + 1) * T"
    by (metis assms pos_divide_less_eq)
  then show "p - of_int \<lfloor>p / T\<rfloor> * T < T" by (simp add: algebra_simps)
qed

lemma floor_position:
  assumes "0 < (T::rat)" "0 \<le> c" "c < T"
  shows "\<lfloor>(of_int d * T + c) / T\<rfloor> = d"
proof (rule floor_unique)
  from assms show "of_int d \<le> (of_int d * T + c) / T" by (simp add: pos_le_divide_eq)
  from assms show "(of_int d * T + c) / T < of_int d + 1"
    by (simp add: pos_divide_less_eq algebra_simps)
qed

lemma balance_loop_light:
  "\<not> T \<le> c + weight x \<Longrightarrow>
   balance_loop exact_arith (Suc fuel) n T (x # rest) d c ts out
     = balance_loop exact_arith fuel n T rest d (c + weight x) (ts @ [x]) out"
  by (simp add: exact_arith_def)

lemma balance_loop_far:
  "T \<le> c + weight x \<Longrightarrow> T \<le> c + weight x - T \<Longrightarrow>
   balance_loop exact_arith (Suc fuel) n T (x # rest) d c ts out
     = balance_loop exact_arith fuel n T
         (rest @ [\<lparr>item_id = item_id x, weight = c + weight x - T\<rparr>]) (d + 1) 0 []
         (if d < n then out @ [(d, ts @ [\<lparr>item_id = item_id x, weight = T - c\<rparr>])] else out)"
  by (simp add: Let_def exact_arith_def)

lemma balance_loop_near:
  "T \<le> c + weight x \<Longrightarrow> \<not> T \<le> c + weight x - T \<Longrightarrow>
   balance_loop exact_arith (Suc fuel) n T (x # rest) d c ts out
     = balance_loop exact_arith fuel n T rest (d + 1) (c + weight x - T)
         (if c + weight x - T \<noteq> 0 then [\<lparr>item_id = item_id x, weight = c + weight x - T\<rparr>]
          else [])
         (if d < n then out @ [(d, ts @ [\<lparr>item_id = item_id x, weight = T - c\<rparr>])] else out)"
  by (simp add: Let_def exact_arith_def)

lemma balance_loop_rule:
  assumes run: "balance_loop exact_arith fuel n T rest d c ts out = Some res"
    and T: "0 < T" and c: "0 \<le> c" "c < T" and w: "\<forall>i\<in>set rest. 0 \<le> weight i"
    and base: "\<And>d c ts out. 0 \<le> c \<Longrightarrow> c < T \<Longrightarrow> P [] d c ts out (d, c, ts, out)"
    and light: "\<And>x rest d c ts out res.
        0 \<le> c \<Longrightarrow> 0 \<le> weight x \<Longrightarrow> c + weight x < T \<Longrightarrow> \<forall>i\<in>set rest. 0 \<le> weight i \<Longrightarrow>
        P rest d (c + weight x) (ts @ [x]) out res \<Longrightarrow> P (x # rest) d c ts out res"
    and far: "\<And>x rest d c ts out res.
        0 \<le> c \<Longrightarrow> c < T \<Longrightarrow> 0 \<le> weight x \<Longrightarrow> T \<le> c + weight x - T \<Longrightarrow>
        \<forall>i\<in>set rest. 0 \<le> weight i \<Longrightarrow>
        P (rest @ [\<lparr>item_id = item_id x, weight = c + weight x - T\<rparr>]) (d + 1) 0 []
          (if d < n then out @ [(d, ts @ [\<lparr>item_id = item_id x, weight = T - c\<rparr>])] else out) res
        \<Longrightarrow> P (x # rest) d c ts out res"
    and near: "\<And>x rest d c ts out res.
        0 \<le> c \<Longrightarrow> c < T \<Longrightarrow> 0 \<le> weight x \<Longrightarrow> T \<le> c + weight x \<Longrightarrow> c + weight x - T < T \<Longrightarrow>
        \<forall>i\<in>set rest. 0 \<le> weight i \<Longrightarrow>
        P rest (d + 1) (c + weight x - T)
          (if c + weight x - T \<noteq> 0 then [\<lparr>item_id = item_id x, weight = c + weight x - T\<rparr>]
           else [])
          (if d < n then out @ [(d, ts @ [\<lparr>item_id = item_id x, weight = T - c\<rparr>])] else out) res
        \<Longrightarrow> P (x # rest) d c ts out res"
  shows "P rest d c ts out res"
  using run c w
proof (induction fuel arbitrary: rest d c ts out)
  case 0
  then show ?case by (cases rest) (auto intro: base)
next
  case (Suc fuel)
  show ?case
  proof (cases rest)
    case Nil
    with Suc.prems show ?thesis by (auto intro: base)
  next
    case (Cons x rest')
    with Suc.prems have wx: "0 \<le> weight x" and wr: "\<forall>i\<in>set rest'. 0 \<le> weight i" by simp_all
    show ?thesis
    proof (cases "T \<le> c + weight x")
      case False
      have r: "balance_loop exact_arith fuel n T rest' d (c + weight x) (ts @ [x]) out = Some res"
        using Suc.prems(1) unfolding Cons balance_loop_light[OF False] .
      from False Suc.prems(2) wx have "0 \<le> c + weight x" "c + weight x < T" by simp_all
      from Suc.IH[OF r this wr] have "P rest' d (c + weight x) (ts @ [x]) out res" .
      from light[OF Suc.prems(2) wx _ wr this] False Cons show ?thesis by simp
    next
      case True
      show ?thesis
      proof (cases "T \<le> c + weight x - T")
        case far': True
        let ?rest = "rest' @ [\<lparr>item_id = item_id x, weight = c + weight x - T\<rparr>]"
        let ?out = "if d < n then out @ [(d, ts @ [\<lparr>item_id = item_id x, weight = T - c\<rparr>])]
                    else out"
        have r: "balance_loop exact_arith fuel n T ?rest (d + 1) 0 [] ?out = Some res"
          using Suc.prems(1) unfolding Cons balance_loop_far[OF True far'] .
        from far' T wr have wr': "\<forall>i\<in>set ?rest. 0 \<le> weight i" by auto
        from T have "(0::rat) \<le> 0" "0 < T" by simp_all
        from Suc.IH[OF r this wr'] have "P ?rest (d + 1) 0 [] ?out res" .
        from far[OF Suc.prems(2,3) wx far' wr this] Cons show ?thesis by simp
      next
        case near': False
        let ?c = "c + weight x - T"
        let ?ts = "if ?c \<noteq> 0 then [\<lparr>item_id = item_id x, weight = ?c\<rparr>] else []"
        let ?out = "if d < n then out @ [(d, ts @ [\<lparr>item_id = item_id x, weight = T - c\<rparr>])]
                    else out"
        have r: "balance_loop exact_arith fuel n T rest' (d + 1) ?c ?ts ?out = Some res"
          using Suc.prems(1) unfolding Cons balance_loop_near[OF True near'] .
        from True near' have "0 \<le> ?c" "?c < T" by simp_all
        from Suc.IH[OF r this wr] have "P rest' (d + 1) ?c ?ts ?out res" .
        from near[OF Suc.prems(2,3) wx True _ wr this] near' Cons show ?thesis by simp
      qed
    qed
  qed
qed

lemma wsum_simps [simp]:
  "wsum g [] = 0"
  "wsum g (x # xs) = g (item_id x) * weight x + wsum g xs"
  "wsum g (xs @ ys) = wsum g xs + wsum g ys"
  by (simp_all add: wsum_def)



lemma total_wsum: "sum_list (map weight items) = wsum (\<lambda>y. 1) items"
  by (induction items) simp_all

lemma weights_nonneg:
  "\<forall>i\<in>set items. 0 \<le> weight i \<Longrightarrow> 0 \<le> sum_list (map weight items)"
  by (induction items) auto

lemma wsum_zero:
  assumes "\<forall>i\<in>set items. 0 \<le> weight i" "sum_list (map weight items) \<le> 0"
  shows "wsum g items = 0"
  using assms
proof (induction items)
  case Nil
  show ?case by simp
next
  case (Cons x xs)
  then have nn: "0 \<le> weight x" "0 \<le> sum_list (map weight xs)"
    by (simp_all add: weights_nonneg)
  with Cons.prems(2) have "weight x = 0" "sum_list (map weight xs) \<le> 0" by simp_all
  with Cons show ?case by simp
qed

lemma balance_weight_unfold:
  "balance_weight rnd fuel n G p items =
     map_option (closing_send n)
       (balance_loop rnd fuel n (target_weight_of rnd n G) items
          (initial_dest_rank rnd (target_weight_of rnd n G) p)
          (initial_curr_weight (target_weight_of rnd n G) p) [] [])"
  by (simp add: balance_weight_def closing_send_def Let_def split: option.splits)

text \<open>Conservation of any weighted total through the loop and the closing send.\<close>

lemma balance_loop_conserves:
  assumes run: "balance_loop exact_arith fuel n T rest d c ts out = Some res"
    and T: "0 < T" and c: "0 \<le> c" "c < T" and w: "\<forall>i\<in>set rest. 0 \<le> weight i"
    and coh: "of_int d * T + c + sum_list (map weight rest) \<le> of_int n * T"
    and ts: "sum_list (map weight ts) \<le> c" "\<forall>i\<in>set ts. 0 \<le> weight i"
  shows "wsum g (concat (map snd (closing_send n res)))
           = wsum g (concat (map snd out)) + wsum g ts + wsum g rest"
proof -
  let ?P = "\<lambda>rest d c ts out res.
      of_int d * T + c + sum_list (map weight rest) \<le> of_int n * T \<longrightarrow>
      sum_list (map weight ts) \<le> c \<longrightarrow> (\<forall>i\<in>set ts. 0 \<le> weight i) \<longrightarrow>
      wsum g (concat (map snd (closing_send n res)))
        = wsum g (concat (map snd out)) + wsum g ts + wsum g rest"
  have "?P rest d c ts out res"
  proof (rule balance_loop_rule[where P = ?P, OF run T c w])
    fix d c ts out
    assume c: "0 \<le> (c::rat)" "c < T"
    show "?P [] d c ts out (d, c, ts, out)"
    proof (intro impI)
      assume coh: "of_int d * T + c + sum_list (map weight []) \<le> of_int n * T"
        and ts: "sum_list (map weight ts) \<le> c" "\<forall>i\<in>set ts. 0 \<le> weight i"
      show "wsum g (concat (map snd (closing_send n (d, c, ts, out))))
          = wsum g (concat (map snd out)) + wsum g ts + wsum g []"
      proof (cases "d < n")
        case True
        then show ?thesis by (simp add: closing_send_def)
      next
        case False
        then have "of_int n * T \<le> of_int d * T" using T by simp
        moreover from coh have "of_int d * T + c \<le> of_int n * T" by simp
        ultimately have "c = 0" using c by linarith
        with ts have "wsum g ts = 0" by (intro wsum_zero) simp_all
        with False show ?thesis by (simp add: closing_send_def)
      qed
    qed
  next
    fix x rest d c ts out res
    assume "0 \<le> (c::rat)" "0 \<le> weight x" "c + weight x < T" "\<forall>i\<in>set rest. 0 \<le> weight i"
      and IH: "?P rest d (c + weight x) (ts @ [x]) out res"
    show "?P (x # rest) d c ts out res"
    proof (intro impI)
      assume "of_int d * T + c + sum_list (map weight (x # rest)) \<le> of_int n * T"
        "sum_list (map weight ts) \<le> c" "\<forall>i\<in>set ts. 0 \<le> weight i"
      with IH \<open>0 \<le> weight x\<close>
      have "wsum g (concat (map snd (closing_send n res)))
          = wsum g (concat (map snd out)) + wsum g (ts @ [x]) + wsum g rest"
        by (simp add: add.assoc)
      then show "wsum g (concat (map snd (closing_send n res)))
          = wsum g (concat (map snd out)) + wsum g ts + wsum g (x # rest)"
        by simp
    qed
  next
    fix x :: "'a item" and rest :: "'a item list" and d :: int and c :: rat
      and ts :: "'a item list" and out :: "(int \<times> 'a item list) list"
      and res :: "int \<times> rat \<times> 'a item list \<times> (int \<times> 'a item list) list"
    let ?rest = "rest @ [\<lparr>item_id = item_id x, weight = c + weight x - T\<rparr>]"
    let ?out = "if d < n then out @ [(d, ts @ [\<lparr>item_id = item_id x, weight = T - c\<rparr>])] else out"
    assume c: "0 \<le> (c::rat)" "c < T" and wx: "0 \<le> weight x" and far: "T \<le> c + weight x - T"
      and wr: "\<forall>i\<in>set rest. 0 \<le> weight i"
      and IH: "?P ?rest (d + 1) 0 [] ?out res"
    show "?P (x # rest) d c ts out res"
    proof (intro impI)
      assume coh: "of_int d * T + c + sum_list (map weight (x # rest)) \<le> of_int n * T"
        and ts: "sum_list (map weight ts) \<le> c" "\<forall>i\<in>set ts. 0 \<le> weight i"
      from wr have nn: "0 \<le> sum_list (map weight rest)" by (simp add: weights_nonneg)
      have dn: "d < n"
      proof (rule ccontr)
        assume "\<not> d < n"
        then have "of_int n * T \<le> of_int d * T" using T by simp
        moreover from coh
        have "of_int d * T + c + (weight x + sum_list (map weight rest)) \<le> of_int n * T"
          by simp
        ultimately show False using nn far T c wx by linarith
      qed
      from coh have "of_int (d + 1) * T + 0 + sum_list (map weight ?rest) \<le> of_int n * T"
        by (simp add: algebra_simps)
      with IH have "wsum g (concat (map snd (closing_send n res)))
          = wsum g (concat (map snd ?out)) + wsum g [] + wsum g ?rest"
        by simp
      with dn show "wsum g (concat (map snd (closing_send n res)))
          = wsum g (concat (map snd out)) + wsum g ts + wsum g (x # rest)"
        by (simp add: algebra_simps)
    qed
  next
    fix x :: "'a item" and rest :: "'a item list" and d :: int and c :: rat
      and ts :: "'a item list" and out :: "(int \<times> 'a item list) list"
      and res :: "int \<times> rat \<times> 'a item list \<times> (int \<times> 'a item list) list"
    let ?c = "c + weight x - T"
    let ?ts = "if ?c \<noteq> 0 then [\<lparr>item_id = item_id x, weight = ?c\<rparr>] else []"
    let ?out = "if d < n then out @ [(d, ts @ [\<lparr>item_id = item_id x, weight = T - c\<rparr>])] else out"
    assume c: "0 \<le> (c::rat)" "c < T" and wx: "0 \<le> weight x" and full: "T \<le> c + weight x"
      and near: "c + weight x - T < T" and wr: "\<forall>i\<in>set rest. 0 \<le> weight i"
      and IH: "?P rest (d + 1) ?c ?ts ?out res"
    show "?P (x # rest) d c ts out res"
    proof (intro impI)
      assume coh: "of_int d * T + c + sum_list (map weight (x # rest)) \<le> of_int n * T"
        and ts: "sum_list (map weight ts) \<le> c" "\<forall>i\<in>set ts. 0 \<le> weight i"
      from wr have nn: "0 \<le> sum_list (map weight rest)" by (simp add: weights_nonneg)
      have dn: "d < n"
      proof (rule ccontr)
        assume "\<not> d < n"
        then have "of_int n * T \<le> of_int d * T" using T by simp
        moreover from coh
        have "of_int d * T + c + (weight x + sum_list (map weight rest)) \<le> of_int n * T"
          by simp
        ultimately show False using nn full T c wx by linarith
      qed
      from coh have 1: "of_int (d + 1) * T + ?c + sum_list (map weight rest) \<le> of_int n * T"
        by (simp add: algebra_simps)
      from full have 2: "sum_list (map weight ?ts) \<le> ?c" "\<forall>i\<in>set ?ts. 0 \<le> weight i"
        by simp_all
      from IH 1 2 have "wsum g (concat (map snd (closing_send n res)))
          = wsum g (concat (map snd ?out)) + wsum g ?ts + wsum g rest"
        by blast
      moreover have "wsum g ?ts = g (item_id x) * ?c" by simp
      ultimately show "wsum g (concat (map snd (closing_send n res)))
          = wsum g (concat (map snd out)) + wsum g ts + wsum g (x # rest)"
        using dn by (simp add: algebra_simps)
    qed
  qed
  with coh ts show ?thesis by blast
qed

text \<open>Destinations, for any rounding.\<close>

lemma balance_loop_dests:
  "balance_loop rnd fuel n T rest d c ts out = Some res
    \<Longrightarrow> \<forall>m\<in>set out. lo \<le> fst m \<and> fst m < n \<Longrightarrow> lo \<le> d
    \<Longrightarrow> \<forall>m\<in>set (closing_send n res). lo \<le> fst m \<and> fst m < n"
proof (induction fuel arbitrary: rest d c ts out)
  case 0
  then show ?case by (cases rest) (auto simp: closing_send_def)
next
  case (Suc fuel)
  show ?case
  proof (cases rest)
    case Nil
    with Suc.prems show ?thesis by (auto simp: closing_send_def)
  next
    case (Cons x rest')
    show ?thesis
    proof (cases "T \<le> rnd (c + weight x)")
      case False
      with Suc.prems(1) Cons
      have "balance_loop rnd fuel n T rest' d (rnd (c + weight x)) (ts @ [x]) out = Some res"
        by simp
      from Suc.IH[OF this Suc.prems(2,3)] show ?thesis .
    next
      case True
      let ?rem = "rnd (rnd (c + weight x) - T)"
      let ?send = "\<lparr>item_id = item_id x, weight = rnd (weight x - ?rem)\<rparr>"
      let ?out = "if d < n then out @ [(d, ts @ [?send])] else out"
      from Suc.prems(1) Cons True obtain rest1 c1 ts1 where
        "balance_loop rnd fuel n T rest1 (d + 1) c1 ts1 ?out = Some res"
        by (simp add: Let_def)
      moreover from Suc.prems(2,3) have "\<forall>m\<in>set ?out. lo \<le> fst m \<and> fst m < n" by auto
      moreover from Suc.prems(3) have "lo \<le> d + 1" by simp
      ultimately show ?thesis by (rule Suc.IH)
    qed
  qed
qed

text \<open>Where the loop ends, in exact arithmetic.\<close>

lemma balance_loop_position:
  assumes run: "balance_loop exact_arith fuel n T rest d c ts out = Some res"
    and T: "0 < T" and c: "0 \<le> c" "c < T" and w: "\<forall>i\<in>set rest. 0 \<le> weight i"
  shows "of_int (fst res) * T + fst (snd res) = of_int d * T + c + sum_list (map weight rest) \<and>
         0 \<le> fst (snd res) \<and> fst (snd res) < T"
proof -
  let ?P = "\<lambda>(rest :: 'a item list) (d :: int) (c :: rat) (ts :: 'a item list)
      (out :: (int \<times> 'a item list) list)
      (res :: int \<times> rat \<times> 'a item list \<times> (int \<times> 'a item list) list).
      of_int (fst res) * T + fst (snd res) = of_int d * T + c + sum_list (map weight rest) \<and>
      0 \<le> fst (snd res) \<and> fst (snd res) < T"
  show ?thesis
    by (rule balance_loop_rule[where P = ?P, OF run T c w]) (simp_all add: algebra_simps)
qed




lemma trunc_fmod_exact:
  assumes "0 < T" "0 \<le> p"
  shows "initial_dest_rank exact_arith T p = \<lfloor>p / T\<rfloor>"
    and "initial_curr_weight T p = p - of_int \<lfloor>p / T\<rfloor> * T"
proof -
  from assms have "0 \<le> p / T" by simp
  then show "initial_dest_rank exact_arith T p = \<lfloor>p / T\<rfloor>"
    "initial_curr_weight T p = p - of_int \<lfloor>p / T\<rfloor> * T"
    by (simp_all add: initial_dest_rank_def initial_curr_weight_def fmod_def trunc_nonneg
        exact_arith_def)
qed









subsection \<open>What every rank receives, in exact arithmetic\<close>









subsection \<open>Evaluation\<close>

text \<open>Rules with which the simplifier runs the definitions on numerals.\<close>

lemma floor_rat_numeral_divide [simp]:
  "\<lfloor>(numeral a :: rat) / numeral b\<rfloor> = numeral a div numeral b"
  by (metis floor_divide_of_int_eq of_int_numeral)

lemma floor_rat_one_divide [simp]:
  "\<lfloor>(1 :: rat) / numeral b\<rfloor> = 1 div numeral b"
  by (metis floor_divide_of_int_eq of_int_numeral of_int_1)

lemma scale_significand_numeral:
  "scale_significand (numeral k) m e =
     (if m < 2 ^ 52 then scale_significand (pred_numeral k) (m * 2) (e - 1)
      else if m \<ge> 2 ^ 53 then scale_significand (pred_numeral k) (m / 2) (e + 1)
      else (m, e))"
  by (simp add: numeral_eq_Suc)

lemmas fl_eval = round_double_def round_half_even_def Let_def scale_significand_numeral

lemmas bal_eval = balance_weight_all_def balance_all_def balance_sends_def balance_weight_def
  balance_asserts_def is_balanced_def ygm_is_same_def received_def local_weight_of_def
  ygm_sum_def prefix_sum_exclusive_def prefix_sum_inclusive_def target_weight_of_def
  initial_dest_rank_def initial_curr_weight_def trunc_def fmod_def Let_def

subsection \<open>Properties of the balancer\<close>

lemma balance_weight_conserves:
  assumes run: "balance_weight exact_arith fuel n G p items = Some msgs"
    and Tdef: "T = target_weight_of exact_arith n G" and T: "0 < T"
    and p: "0 \<le> p"
    and w: "\<forall>i\<in>set items. 0 \<le> weight i"
    and coh: "p + sum_list (map weight items) \<le> of_int n * T"
  shows "wsum g (concat (map snd msgs)) = wsum g items"
proof -
  let ?d = "initial_dest_rank exact_arith T p"
  let ?c = "initial_curr_weight T p"
  from run obtain res where loop: "balance_loop exact_arith fuel n T items ?d ?c [] [] = Some res"
    and msgs: "msgs = closing_send n res"
    by (auto simp: balance_weight_unfold Tdef)
  from trunc_fmod_exact[OF T p] have d: "?d = \<lfloor>p / T\<rfloor>" and c: "?c = p - of_int ?d * T"
    by simp_all
  from floor_decompose[OF T, of p] d c have c0: "0 \<le> ?c" "?c < T" by simp_all
  from c coh have coh': "of_int ?d * T + ?c + sum_list (map weight items) \<le> of_int n * T"
    by simp
  from c0 have ts: "sum_list (map weight []) \<le> ?c" "\<forall>i\<in>set []. 0 \<le> weight i" by simp_all
  from balance_loop_conserves[OF loop T c0 w coh' ts, of g] msgs show ?thesis by simp
qed

text \<open>
  With the inclusive prefix sum the balancer is wrong already in exact arithmetic: of two
  ranks with one item of weight 1 each, rank 0 sends its item to rank 1, rank 1 sends
  nothing, and the assertion \<open>m_local_items.size() > 0\<close> fails on rank 0.
\<close>

lemma inclusive_prefix_sum_breaks_balancer:
  "balance_all exact_arith 3 (prefix_sum_inclusive exact_arith)
     [[\<lparr>item_id = ''a'', weight = 1\<rparr>], [\<lparr>item_id = ''b'', weight = 1\<rparr>]]
     = Some [[], [\<lparr>item_id = ''a'', weight = 1\<rparr>]] \<and>
   balance_weight_all exact_arith 3 (prefix_sum_inclusive exact_arith)
     [[\<lparr>item_id = ''a'', weight = 1\<rparr>], [\<lparr>item_id = ''b'', weight = 1\<rparr>]]
     = Some (Inl Assertion_failed)"
  by (simp add: bal_eval exact_arith_def numeral_3_eq_3)















text \<open>
  In exact arithmetic, for a positive target weight \<open>T\<close> and a non-negative value
  \<open>p\<close> returned by the prefix sum collective, the first destination rank is
  \<open>\<lfloor>p / T\<rfloor>\<close>; after the loop over items of non-negative weight and local weight
  \<open>L\<close> the destination rank is \<open>\<lfloor>(p + L) / T\<rfloor>\<close>: it went up by one for every
  multiple of \<open>T\<close> that was reached.
\<close>

lemma dest_rank_floor:
  assumes "0 < T" "0 \<le> p" "\<forall>i\<in>set items. 0 \<le> weight i"
  shows "initial_dest_rank exact_arith T p = \<lfloor>p / T\<rfloor> \<and>
         (\<forall>res. balance_loop exact_arith fuel nranks T items (initial_dest_rank exact_arith T p)
                  (initial_curr_weight T p) [] [] = Some res
            \<longrightarrow> fst res = \<lfloor>(p + local_weight_of exact_arith items) / T\<rfloor>)"
proof (intro conjI allI impI)
  let ?d = "initial_dest_rank exact_arith T p"
  let ?c = "initial_curr_weight T p"
  from trunc_fmod_exact[OF assms(1,2)] show d: "?d = \<lfloor>p / T\<rfloor>" by simp
  from trunc_fmod_exact[OF assms(1,2)] have c: "?c = p - of_int ?d * T" by simp
  from floor_decompose[OF assms(1), of p] d c have c0: "0 \<le> ?c" "?c < T" by simp_all
  fix res
  assume "balance_loop exact_arith fuel nranks T items ?d ?c [] [] = Some res"
  from balance_loop_position[OF this assms(1) c0 assms(3)] c
  have e: "of_int (fst res) * T + fst (snd res) = p + sum_list (map weight items)"
    and r: "0 \<le> fst (snd res)" "fst (snd res) < T"
    by simp_all
  from floor_position[OF assms(1) r, of "fst res"] e
  show "fst res = \<lfloor>(p + local_weight_of exact_arith items) / T\<rfloor>"
    by (simp add: local_weight_of_exact)
qed

lemma dest_rank_floor_example:
  "initial_dest_rank exact_arith 3 4 = 1 \<and>
   map_option fst (balance_loop exact_arith 2 2 3 [\<lparr>item_id = ''c'', weight = 2\<rparr>]
      (initial_dest_rank exact_arith 3 4) (initial_curr_weight 3 4) [] []) = Some 2"
proof -
  have h: "(0::rat) < 3" "(0::rat) \<le> 4" "\<forall>i\<in>set [\<lparr>item_id = ''c'', weight = 2\<rparr>]. 0 \<le> weight i"
    by simp_all
  have e: "\<exists>res. balance_loop exact_arith 2 2 3 [\<lparr>item_id = ''c'', weight = 2\<rparr>]
      (initial_dest_rank exact_arith 3 4) (initial_curr_weight 3 4) [] [] = Some res"
    by (simp add: bal_eval exact_arith_def numeral_2_eq_2)
  from dest_rank_floor[OF h, of 2 2] e show ?thesis
    by (auto simp: local_weight_of_exact)
qed

text \<open>
  In double arithmetic the quotient is rounded before it is truncated. Of ten ranks with
  global weight 1 the target weight is the double nearest to \<open>1/10\<close>, which is larger;
  for the prefix \<open>1/2\<close> the first destination is 5, while the exact quotient of the
  prefix and that target weight is below 5.
\<close>

lemma initial_dest_rank_rounds_quotient:
  "target_weight_of round_double 10 1 = 3602879701896397 / 36028797018963968 \<and>
   initial_dest_rank round_double (target_weight_of round_double 10 1) (1 / 2) = 5 \<and>
   \<lfloor>(1 / 2) / target_weight_of round_double 10 1\<rfloor> = 4"
proof -
  have r: "round_double (1 / 10) = 3602879701896397 / 36028797018963968"
    "round_double (18014398509481984 / 3602879701896397) = 5"
    by (simp_all add: fl_eval)
  show ?thesis by (simp add: bal_eval r)
qed

text \<open>
  C4. A batch whose destination is not below \<open>nranks\<close> is not sent. In exact arithmetic
  the single rank with items \<open>(a, 1), (b, 0)\<close> ends with \<open>(a, 1)\<close> alone; in double
  arithmetic the single rank with items \<open>(a, 2^60), (b, 1)\<close> passes both assertions and
  ends with \<open>(a, 2^60)\<close> alone: the fragment \<open>(b, 1)\<close> is not absorbed into rank
  \<open>nranks - 1\<close> and its weight is lost.
\<close>

theorem dropped_fragment_counterexample:
  "balance_weight_all exact_arith 3 (prefix_sum_exclusive exact_arith)
     [[\<lparr>item_id = ''a'', weight = 1\<rparr>, \<lparr>item_id = ''b'', weight = 0\<rparr>]]
     = Some (Inr [[\<lparr>item_id = ''a'', weight = 1\<rparr>]]) \<and>
   balance_weight_all round_double 3 (prefix_sum_exclusive round_double)
     [[\<lparr>item_id = ''a'', weight = 1152921504606846976\<rparr>, \<lparr>item_id = ''b'', weight = 1\<rparr>]]
     = Some (Inr [[\<lparr>item_id = ''a'', weight = 1152921504606846976\<rparr>]])"
proof -
  have r: "round_double 1152921504606846976 = 1152921504606846976"
    "round_double 1152921504606846977 = 1152921504606846976"
    "round_double 1 = 1" "round_double 0 = 0"
    by (simp_all add: fl_eval)
  have t: "0 < round_double (1 / 1000000)" by (simp add: fl_eval)
  have "balance_weight_all round_double 3 (prefix_sum_exclusive round_double)
     [[\<lparr>item_id = ''a'', weight = 1152921504606846976\<rparr>, \<lparr>item_id = ''b'', weight = 1\<rparr>]]
     = Some (Inr [[\<lparr>item_id = ''a'', weight = 1152921504606846976\<rparr>]])"
    using t by (simp add: bal_eval r numeral_3_eq_3)
  moreover have "balance_weight_all exact_arith 3 (prefix_sum_exclusive exact_arith)
     [[\<lparr>item_id = ''a'', weight = 1\<rparr>, \<lparr>item_id = ''b'', weight = 0\<rparr>]]
     = Some (Inr [[\<lparr>item_id = ''a'', weight = 1\<rparr>]])"
    by (simp add: bal_eval exact_arith_def numeral_3_eq_3)
  ultimately show ?thesis by simp
qed

text \<open>
  C4, as amended. Under any rounding, every message of \<open>balance_weight\<close> is addressed
  to a rank below \<open>nranks\<close>. In exact arithmetic, when the values of the collectives are
  consistent (the target weight is positive, the prefix is not negative, prefix plus local
  weight do not exceed \<open>nranks\<close> times the target weight), the weights of the items a
  rank sends add up to its local weight: what is not sent has weight 0.
\<close>

theorem dest_rank_below_nranks:
  "(\<forall>msgs. balance_weight rnd fuel nranks global_weight prfx_sum_weight items = Some msgs
      \<longrightarrow> (\<forall>m\<in>set msgs. fst m < nranks)) \<and>
   (0 < target_weight_of exact_arith nranks global_weight \<and> 0 \<le> prfx_sum_weight \<and>
    (\<forall>i\<in>set items. 0 \<le> weight i) \<and>
    prfx_sum_weight + local_weight_of exact_arith items
      \<le> of_int nranks * target_weight_of exact_arith nranks global_weight
    \<longrightarrow> (\<forall>msgs. balance_weight exact_arith fuel nranks global_weight prfx_sum_weight items
                 = Some msgs
          \<longrightarrow> local_weight_of exact_arith (concat (map snd msgs))
                = local_weight_of exact_arith items))"
proof (intro conjI allI impI)
  fix msgs
  assume "balance_weight rnd fuel nranks global_weight prfx_sum_weight items = Some msgs"
  then obtain res where
    loop: "balance_loop rnd fuel nranks (target_weight_of rnd nranks global_weight) items
        (initial_dest_rank rnd (target_weight_of rnd nranks global_weight) prfx_sum_weight)
        (initial_curr_weight (target_weight_of rnd nranks global_weight) prfx_sum_weight) [] []
       = Some res"
    and msgs: "msgs = closing_send nranks res"
    by (auto simp: balance_weight_unfold)
  from balance_loop_dests[OF loop, of "initial_dest_rank rnd
      (target_weight_of rnd nranks global_weight) prfx_sum_weight"] msgs
  show "\<forall>m\<in>set msgs. fst m < nranks" by simp
next
  fix msgs
  assume a: "0 < target_weight_of exact_arith nranks global_weight \<and> 0 \<le> prfx_sum_weight \<and>
    (\<forall>i\<in>set items. 0 \<le> weight i) \<and>
    prfx_sum_weight + local_weight_of exact_arith items
      \<le> of_int nranks * target_weight_of exact_arith nranks global_weight"
    and run: "balance_weight exact_arith fuel nranks global_weight prfx_sum_weight items
      = Some msgs"
  from a have "wsum (\<lambda>y. 1) (concat (map snd msgs)) = wsum (\<lambda>y. 1) items"
    by (intro balance_weight_conserves[OF run refl]) (simp_all add: local_weight_of_exact)
  then show "local_weight_of exact_arith (concat (map snd msgs))
      = local_weight_of exact_arith items"
    by (simp add: local_weight_of_exact total_wsum)
qed

theorem dest_rank_below_nranks_witness:
  "balance_weight exact_arith 3 1 1 0
     [\<lparr>item_id = ''a'', weight = 1\<rparr>, \<lparr>item_id = ''b'', weight = 0\<rparr>]
     = Some [(0, [\<lparr>item_id = ''a'', weight = 1\<rparr>])] \<and>
   list_all (\<lambda>m. fst m < 1) [(0::int, [\<lparr>item_id = ''a'', weight = 1\<rparr>])] \<and>
   local_weight_of exact_arith (concat (map snd [(0::int, [\<lparr>item_id = ''a'', weight = 1\<rparr>])]))
     = local_weight_of exact_arith [\<lparr>item_id = ''a'', weight = 1\<rparr>, \<lparr>item_id = ''b'', weight = 0\<rparr>]"
proof -
  let ?items = "[\<lparr>item_id = ''a'', weight = 1\<rparr>, \<lparr>item_id = ''b'', weight = 0\<rparr>]"
  have e: "balance_weight exact_arith 3 1 1 0 ?items
     = Some [(0, [\<lparr>item_id = ''a'', weight = 1\<rparr>])]"
    by (simp add: bal_eval exact_arith_def numeral_3_eq_3)
  have h: "0 < target_weight_of exact_arith 1 1 \<and> (0::rat) \<le> 0 \<and>
    (\<forall>i\<in>set ?items. 0 \<le> weight i) \<and>
    0 + local_weight_of exact_arith ?items \<le> of_int 1 * target_weight_of exact_arith 1 1"
    by (simp add: bal_eval exact_arith_def)
  from dest_rank_below_nranks[of exact_arith 3 1 1 0 ?items] e h show ?thesis
    by simp
qed

text \<open>
  C1. In double arithmetic, with the exclusive prefix sum: rank 0 holds \<open>(a, 1)\<close> and
  rank 1 holds \<open>(b, 2^53)\<close>. The global weight \<open>1 + 2^53\<close> rounds to \<open>2^53\<close>, the
  target weight is \<open>2^52\<close>, rank 0 ends with \<open>(a, 1), (b, 2^52)\<close> of local weight
  \<open>2^52 + 1\<close>, and the assertion \<open>dif < 1e-6\<close> of \<open>is_balanced\<close> fails there. In
  exact arithmetic no assertion fails (\<open>balance_weight_all_exact\<close>).
\<close>

theorem balance_assertion_fails_in_double_arithmetic:
  "balance_all round_double 3 (prefix_sum_exclusive round_double)
     [[\<lparr>item_id = ''a'', weight = 1\<rparr>], [\<lparr>item_id = ''b'', weight = 9007199254740992\<rparr>]]
     = Some [[\<lparr>item_id = ''a'', weight = 1\<rparr>, \<lparr>item_id = ''b'', weight = 4503599627370496\<rparr>],
             [\<lparr>item_id = ''b'', weight = 4503599627370496\<rparr>]] \<and>
   target_weight_of round_double 2 (ygm_sum round_double (map (local_weight_of round_double)
     [[\<lparr>item_id = ''a'', weight = 1\<rparr>], [\<lparr>item_id = ''b'', weight = 9007199254740992\<rparr>]]))
     = 4503599627370496 \<and>
   local_weight_of round_double
     [\<lparr>item_id = ''a'', weight = 1\<rparr>, \<lparr>item_id = ''b'', weight = 4503599627370496\<rparr>]
     = 4503599627370497 \<and>
   balance_weight_all round_double 3 (prefix_sum_exclusive round_double)
     [[\<lparr>item_id = ''a'', weight = 1\<rparr>], [\<lparr>item_id = ''b'', weight = 9007199254740992\<rparr>]]
     = Some (Inl Assertion_failed)"
proof -
  have r: "round_double 9007199254740992 = 9007199254740992"
    "round_double 9007199254740993 = 9007199254740992"
    "round_double 4503599627370496 = 4503599627370496"
    "round_double 4503599627370497 = 4503599627370497"
    "round_double (1 / 4503599627370496) = 1 / 4503599627370496"
    "round_double 1 = 1" "round_double 0 = 0" "round_double (- 1) = - 1"
    by (simp_all add: fl_eval)
  have t: "round_double (1 / 1000000) < 1" by (simp add: fl_eval)
  show ?thesis using t
    by (simp add: bal_eval r numeral_3_eq_3)
qed

section \<open>Properties of the work queue\<close>

lemma objects_upd_obj [simp]:
  "objects (upd_obj this f s) a = (if a = this then f (objects s this) else objects s a)"
  by (simp add: upd_obj_def)

lemma callbacks_upd_obj [simp]:
  "pre_barrier_callbacks (upd_obj this f s) = pre_barrier_callbacks s"
  by (simp add: upd_obj_def)

lemma user_state_upd_obj [simp]: "user_state (upd_obj this f s) = user_state s"
  by (simp add: upd_obj_def)

lemma local_insert_queue:
  "m_local_queue (objects (local_insert pol this x s) a)
     = (if a = this then m_local_queue (objects s this) @ [x] else m_local_queue (objects s a))"
  by (simp add: local_insert_def register_processing_callback_def Let_def)

lemma local_insert_flag:
  "m_callback_registered (objects (local_insert pol this x s) a)
     = (if a = this then True else m_callback_registered (objects s a))"
  by (simp add: local_insert_def register_processing_callback_def Let_def)

lemma local_insert_work:
  "m_work_lambda (objects (local_insert pol this x s) a) = m_work_lambda (objects s a)"
  by (simp add: local_insert_def register_processing_callback_def Let_def)

lemma local_insert_user: "user_state (local_insert pol this x s) = user_state s"
  by (simp add: local_insert_def register_processing_callback_def Let_def)

lemma local_insert_callbacks:
  "pre_barrier_callbacks (local_insert pol this x s)
     = (if m_callback_registered (objects s this) then pre_barrier_callbacks s
        else pre_barrier_callbacks s @ [this])"
  by (simp add: local_insert_def register_processing_callback_def Let_def)

lemma local_insert_other:
  "a \<noteq> this \<Longrightarrow> objects (local_insert pol this x s) a = objects s a"
  by (simp add: local_insert_def register_processing_callback_def Let_def)

lemma grows_refl: "grows this s s"
  by (simp add: grows_def)

lemma grows_trans:
  assumes "grows this s s1" "grows this s1 s2"
  shows "grows this s s2"
proof -
  from assms have o: "\<And>a. a \<noteq> this \<Longrightarrow> objects s2 a = objects s a"
    by (simp add: grows_def)
  from assms have c1: "set (pre_barrier_callbacks s) \<subseteq> set (pre_barrier_callbacks s1)"
    and c2: "set (pre_barrier_callbacks s1) \<subseteq> set (pre_barrier_callbacks s2)"
    by (simp_all add: grows_def)
  from assms have f1: "m_callback_registered (objects s1 this)
      \<Longrightarrow> m_callback_registered (objects s this) \<or> this \<in> set (pre_barrier_callbacks s1)"
    and f2: "m_callback_registered (objects s2 this)
      \<Longrightarrow> m_callback_registered (objects s1 this) \<or> this \<in> set (pre_barrier_callbacks s2)"
    by (simp_all add: grows_def)
  from c1 c2 have c: "set (pre_barrier_callbacks s) \<subseteq> set (pre_barrier_callbacks s2)"
    by (rule subset_trans)
  from f1 f2 c2 have f: "m_callback_registered (objects s2 this)
      \<Longrightarrow> m_callback_registered (objects s this) \<or> this \<in> set (pre_barrier_callbacks s2)"
    by blast
  from o c f show ?thesis by (simp add: grows_def)
qed

lemma grows_local_insert: "grows this s (local_insert pol this x s)"
  by (auto simp: grows_def local_insert_other local_insert_callbacks)

lemma grows_inserts: "grows this s (foldl (\<lambda>s1 x. local_insert pol this x s1) s xs)"
proof (induction xs arbitrary: s)
  case Nil
  show ?case by (simp add: grows_refl)
next
  case (Cons x xs)
  from grows_trans[OF grows_local_insert Cons.IH] show ?case by simp
qed

lemma grows_apply_work_lambda: "grows this s (apply_work_lambda pol this item s)"
proof -
  obtain u ins where w: "m_work_lambda (objects s this) (user_state s) item = (u, ins)"
    by (cases "m_work_lambda (objects s this) (user_state s) item")
  have "grows this s (s\<lparr>user_state := u\<rparr>)" by (simp add: grows_def)
  from grows_trans[OF this grows_inserts] w show ?thesis
    by (simp add: apply_work_lambda_def)
qed

lemma grows_pop:
  "grows this s (upd_obj this (\<lambda>w. w\<lparr>m_local_queue := q w\<rparr>) s)"
  by (simp add: grows_def)

lemma local_process_all_grows:
  "local_process_all fuel pol this s = Some s'
    \<Longrightarrow> m_local_queue (objects s' this) = [] \<and> grows this s s'"
proof (induction fuel arbitrary: s)
  case 0
  then show ?case by (auto simp: grows_refl split: if_splits)
next
  case (Suc fuel)
  show ?case
  proof (cases "m_local_queue (objects s this) = []")
    case True
    with Suc.prems show ?thesis by (auto simp: grows_refl)
  next
    case False
    let ?s1 = "upd_obj this (\<lambda>w. w\<lparr>m_local_queue := policy_pop pol (m_local_queue w)\<rparr>) s"
    let ?s2 = "apply_work_lambda pol this (policy_top pol (m_local_queue (objects s this))) ?s1"
    from False Suc.prems have "local_process_all fuel pol this ?s2 = Some s'"
      by (simp add: Let_def)
    from Suc.IH[OF this] have e: "m_local_queue (objects s' this) = []" and g: "grows this ?s2 s'"
      by simp_all
    from grows_trans[OF grows_trans[OF grows_pop grows_apply_work_lambda] g] e
    show ?thesis by simp
  qed
qed

lemma wq_inv_grows:
  assumes "wq_inv s" "grows this s s'" "m_local_queue (objects s' this) = []"
  shows "wq_inv s'"
  unfolding wq_inv_def
proof (intro allI conjI impI)
  fix a assume "m_local_queue (objects s' a) \<noteq> []"
  with assms show "m_callback_registered (objects s' a)"
    by (cases "a = this") (auto simp: wq_inv_def grows_def)
next
  fix a assume "m_callback_registered (objects s' a)"
  with assms show "a \<in> set (pre_barrier_callbacks s')"
    by (cases "a = this") (auto simp: wq_inv_def grows_def)
qed

lemma wq_inv_local_insert: "wq_inv s \<Longrightarrow> wq_inv (local_insert pol this x s)"
  unfolding wq_inv_def
  by (auto simp: local_insert_queue local_insert_flag local_insert_callbacks)

lemma wq_inv_local_process_all:
  "wq_inv s \<Longrightarrow> local_process_all fuel pol this s = Some s' \<Longrightarrow> wq_inv s'"
  using local_process_all_grows wq_inv_grows by blast

lemma wq_inv_local_clear: "wq_inv s \<Longrightarrow> wq_inv (local_clear this s)"
  unfolding wq_inv_def local_clear_def by auto

lemma wq_inv_process_all_lambda:
  assumes inv: "wq_inv s" and cb: "pre_barrier_callbacks s = this # cbs"
    and run: "process_all_lambda fuel pol this (s\<lparr>pre_barrier_callbacks := cbs\<rparr>) = Some s'"
  shows "wq_inv s'"
proof -
  let ?s0 = "s\<lparr>pre_barrier_callbacks := cbs\<rparr>"
  from run obtain s1 where l: "local_process_all fuel pol this ?s0 = Some s1"
    and s': "s' = upd_obj this (\<lambda>w. w\<lparr>m_callback_registered := False\<rparr>) s1"
    by (auto simp: process_all_lambda_def split: option.splits)
  from local_process_all_grows[OF l]
  have e: "m_local_queue (objects s1 this) = []" and g: "grows this ?s0 s1" by simp_all
  show ?thesis unfolding wq_inv_def
  proof (intro allI conjI impI)
    fix a assume "m_local_queue (objects s' a) \<noteq> []"
    with e g inv show "m_callback_registered (objects s' a)"
      by (cases "a = this") (auto simp: s' wq_inv_def grows_def)
  next
    fix a assume f: "m_callback_registered (objects s' a)"
    then have ne: "a \<noteq> this" by (auto simp: s')
    with f g have "m_callback_registered (objects s a)" by (auto simp: s' grows_def)
    with inv have "a \<in> set (pre_barrier_callbacks s)" by (auto simp: wq_inv_def)
    with ne cb have "a \<in> set cbs" by simp
    with g show "a \<in> set (pre_barrier_callbacks s')" by (auto simp: s' grows_def)
  qed
qed

lemma barrier_inv:
  "wq_inv s \<Longrightarrow> barrier fuel pol s = Some s'
    \<Longrightarrow> wq_inv s' \<and> pre_barrier_callbacks s' = []"
proof (induction fuel arbitrary: s)
  case 0
  then show ?case by (auto split: if_splits)
next
  case (Suc fuel)
  show ?case
  proof (cases "pre_barrier_callbacks s")
    case Nil
    with Suc.prems show ?thesis by auto
  next
    case (Cons this cbs)
    with Suc.prems obtain s1 where
      p: "process_all_lambda fuel pol this (s\<lparr>pre_barrier_callbacks := cbs\<rparr>) = Some s1"
      and b: "barrier fuel pol s1 = Some s'"
      by (auto split: option.splits)
    from wq_inv_process_all_lambda[OF Suc.prems(1) Cons p] have "wq_inv s1" .
    from Suc.IH[OF this b] show ?thesis .
  qed
qed

lemma wq_inv_new: "wq_inv s \<Longrightarrow> wq_inv (work_queue_new this f s)"
  unfolding wq_inv_def work_queue_new_def by auto

lemma wq_inv_init: "wq_inv (rank_init u)"
  unfolding wq_inv_def rank_init_def by auto

lemma objects_register [simp]:
  "objects (register_processing_callback this s) a
     = (if a = this then (objects s this)\<lparr>m_callback_registered := True\<rparr> else objects s a)"
  by (simp add: register_processing_callback_def upd_obj_def)

lemma callbacks_register [simp]:
  "pre_barrier_callbacks (register_processing_callback this s) = pre_barrier_callbacks s @ [this]"
  by (simp add: register_processing_callback_def)

lemma user_state_register [simp]:
  "user_state (register_processing_callback this s) = user_state s"
  by (simp add: register_processing_callback_def)

lemma wq_inv_work_queue_move: "wq_inv s \<Longrightarrow> wq_inv (work_queue_move pol this other s)"
  unfolding wq_inv_def work_queue_move_def
  by (simp add: Let_def local_has_work_def)

lemma wq_inv_move_assign: "wq_inv s \<Longrightarrow> wq_inv (move_assign pol this other s)"
  unfolding wq_inv_def move_assign_def
  by (simp add: Let_def local_has_work_def)

lemma inserts_queue:
  "m_local_queue (objects (foldl (\<lambda>s1 x. local_insert pol this x s1) s xs) this)
     = m_local_queue (objects s this) @ xs"
  by (induction xs arbitrary: s) (simp_all add: local_insert_queue)

lemma inserts_work:
  "m_work_lambda (objects (foldl (\<lambda>s1 x. local_insert pol this x s1) s xs) a)
     = m_work_lambda (objects s a)"
  by (induction xs arbitrary: s) (simp_all add: local_insert_work)

lemma inserts_user:
  "user_state (foldl (\<lambda>s1 x. local_insert pol this x s1) s xs) = user_state s"
  by (induction xs arbitrary: s) (simp_all add: local_insert_user)

lemma apply_work_lambda_no_insert:
  "snd (m_work_lambda (objects s this) (user_state s) item) = []
    \<Longrightarrow> apply_work_lambda pol this item s
        = s\<lparr>user_state := fst (m_work_lambda (objects s this) (user_state s) item)\<rparr>"
  by (auto simp: apply_work_lambda_def split: prod.splits)

text \<open>One iteration of the drain when the work function enqueues nothing.\<close>

lemma local_process_all_step:
  assumes "\<forall>u x. snd (w u x) = []" "m_work_lambda (objects s this) = w"
    "m_local_queue (objects s this) \<noteq> []"
  shows "local_process_all (Suc fuel) pol this s
     = local_process_all fuel pol this
         (upd_obj this (\<lambda>w. w\<lparr>m_local_queue := policy_pop pol (m_local_queue w)\<rparr>) s
            \<lparr>user_state := fst (w (user_state s) (policy_top pol (m_local_queue (objects s this))))\<rparr>)"
  using assms by (simp add: Let_def apply_work_lambda_no_insert)

lemma drain_fifo:
  assumes "\<forall>u x. snd (w u x) = []"
  shows "m_work_lambda (objects s this) = w \<Longrightarrow> length (m_local_queue (objects s this)) \<le> fuel
    \<Longrightarrow> \<exists>s'. local_process_all fuel fifo_policy this s = Some s' \<and>
            user_state s' = foldl (\<lambda>u x. fst (w u x)) (user_state s) (m_local_queue (objects s this))"
proof (induction fuel arbitrary: s)
  case 0
  then show ?case by simp
next
  case (Suc fuel)
  show ?case
  proof (cases "m_local_queue (objects s this)")
    case Nil
    then show ?thesis by simp
  next
    case (Cons x q)
    let ?s1 = "upd_obj this (\<lambda>w. w\<lparr>m_local_queue := policy_pop fifo_policy (m_local_queue w)\<rparr>) s
            \<lparr>user_state := fst (w (user_state s) (policy_top fifo_policy (m_local_queue (objects s this))))\<rparr>"
    from Cons Suc.prems have st: "local_process_all (Suc fuel) fifo_policy this s
        = local_process_all fuel fifo_policy this ?s1"
      by (intro local_process_all_step[OF assms]) simp_all
    from Cons Suc.prems have "m_work_lambda (objects ?s1 this) = w"
      "length (m_local_queue (objects ?s1 this)) \<le> fuel" by simp_all
    from Suc.IH[OF this] Cons st show ?thesis by simp
  qed
qed

lemma drain_lifo:
  assumes "\<forall>u x. snd (w u x) = []"
  shows "m_work_lambda (objects s this) = w \<Longrightarrow> length (m_local_queue (objects s this)) \<le> fuel
    \<Longrightarrow> \<exists>s'. local_process_all fuel lifo_policy this s = Some s' \<and>
            user_state s' = foldl (\<lambda>u x. fst (w u x)) (user_state s)
                              (rev (m_local_queue (objects s this)))"
proof (induction fuel arbitrary: s)
  case 0
  then show ?case by simp
next
  case (Suc fuel)
  show ?case
  proof (cases "m_local_queue (objects s this)" rule: rev_cases)
    case Nil
    then show ?thesis by simp
  next
    case (snoc q x)
    let ?s1 = "upd_obj this (\<lambda>w. w\<lparr>m_local_queue := policy_pop lifo_policy (m_local_queue w)\<rparr>) s
            \<lparr>user_state := fst (w (user_state s) (policy_top lifo_policy (m_local_queue (objects s this))))\<rparr>"
    from snoc Suc.prems have st: "local_process_all (Suc fuel) lifo_policy this s
        = local_process_all fuel lifo_policy this ?s1"
      by (intro local_process_all_step[OF assms]) simp_all
    from snoc Suc.prems have "m_work_lambda (objects ?s1 this) = w"
      "length (m_local_queue (objects ?s1 this)) \<le> fuel" by simp_all
    from Suc.IH[OF this] snoc st show ?thesis by simp
  qed
qed

lemma pq_scan_mem: "foldl (\<lambda>m x. if cmp m x then x else m) m xs \<in> set (m # xs)"
  by (induction xs arbitrary: m) auto

lemma pq_top_mem: "q \<noteq> [] \<Longrightarrow> pq_top cmp q \<in> set q"
  using pq_scan_mem[of cmp "hd q" "tl q"] by (cases q) (simp_all add: pq_top_def)

lemma pq_scan_max:
  assumes "irreflp cmp" "transp cmp"
  shows "\<forall>y\<in>S. \<not> cmp m y \<Longrightarrow>
    \<forall>y\<in>S \<union> set (m # xs). \<not> cmp (foldl (\<lambda>m x. if cmp m x then x else m) m xs) y"
proof (induction xs arbitrary: m S)
  case Nil
  with assms(1) show ?case by (auto simp: irreflp_def)
next
  case (Cons x xs)
  show ?case
  proof (cases "cmp m x")
    case True
    have "\<forall>y\<in>insert m S. \<not> cmp x y"
    proof
      fix y assume y: "y \<in> insert m S"
      show "\<not> cmp x y"
      proof
        assume "cmp x y"
        with True assms(2) have "cmp m y" by (auto dest: transpD)
        with y Cons.prems assms(1) show False by (auto simp: irreflp_def)
      qed
    qed
    from Cons.IH[OF this] True show ?thesis by auto
  next
    case False
    with Cons.prems have "\<forall>y\<in>insert x S. \<not> cmp m y" by auto
    from Cons.IH[OF this] False show ?thesis by auto
  qed
qed

lemma pq_top_max:
  assumes "irreflp cmp" "transp cmp" "y \<in> set q"
  shows "\<not> cmp (pq_top cmp q) y"
proof (cases q)
  case Nil
  with assms show ?thesis by simp
next
  case (Cons x xs)
  from pq_scan_max[OF assms(1,2), of "{}" x xs] assms(3) Cons
  show ?thesis by (auto simp: pq_top_def)
qed

lemma drain_priority:
  assumes "\<forall>u x. snd (w u x) = []" "irreflp cmp" "transp cmp"
  shows "m_work_lambda (objects s this) = w \<Longrightarrow> length (m_local_queue (objects s this)) \<le> fuel
    \<Longrightarrow> \<exists>s' ys. local_process_all fuel (priority_policy cmp) this s = Some s' \<and>
            user_state s' = foldl (\<lambda>u x. fst (w u x)) (user_state s) ys \<and>
            mset ys = mset (m_local_queue (objects s this)) \<and>
            sorted_wrt (\<lambda>x y. \<not> cmp x y) ys"
proof (induction fuel arbitrary: s)
  case 0
  then show ?case by simp
next
  case (Suc fuel)
  let ?q = "m_local_queue (objects s this)"
  show ?case
  proof (cases "?q = []")
    case True
    then show ?thesis by simp
  next
    case False
    let ?pol = "priority_policy cmp"
    let ?s1 = "upd_obj this (\<lambda>w. w\<lparr>m_local_queue := policy_pop ?pol (m_local_queue w)\<rparr>) s
            \<lparr>user_state := fst (w (user_state s) (policy_top ?pol (m_local_queue (objects s this))))\<rparr>"
    from False Suc.prems have st: "local_process_all (Suc fuel) ?pol this s
        = local_process_all fuel ?pol this ?s1"
      by (intro local_process_all_step[OF assms(1)]) simp_all
    from False have mem: "pq_top cmp ?q \<in> set ?q" by (rule pq_top_mem)
    then have len: "length (remove1 (pq_top cmp ?q) ?q) = length ?q - 1"
      by (simp add: length_remove1)
    from Suc.prems len False have "m_work_lambda (objects ?s1 this) = w"
      "length (m_local_queue (objects ?s1 this)) \<le> fuel" by simp_all
    from Suc.IH[OF this] obtain s' ys where
      r: "local_process_all fuel ?pol this ?s1 = Some s'"
      and u: "user_state s' = foldl (\<lambda>u x. fst (w u x)) (user_state ?s1) ys"
      and m: "mset ys = mset (remove1 (pq_top cmp ?q) ?q)"
      and so: "sorted_wrt (\<lambda>x y. \<not> cmp x y) ys"
      by auto
    from m have "set ys = set (remove1 (pq_top cmp ?q) ?q)" by (rule mset_eq_setD)
    then have "set ys \<subseteq> set ?q" using set_remove1_subset by fast
    with pq_top_max[OF assms(2,3)] have top: "\<forall>y\<in>set ys. \<not> cmp (pq_top cmp ?q) y" by blast
    from m mem have m': "mset (pq_top cmp ?q # ys) = mset ?q" by simp
    from so top have so': "sorted_wrt (\<lambda>x y. \<not> cmp x y) (pq_top cmp ?q # ys)" by simp
    from u have u': "user_state s' = foldl (\<lambda>u x. fst (w u x)) (user_state s) (pq_top cmp ?q # ys)"
      by simp
    from st r have "local_process_all (Suc fuel) ?pol this s = Some s'" by simp
    with u' m' so' show ?thesis by blast
  qed
qed

lemmas wq_eval = local_insert_def register_processing_callback_def upd_obj_def work_queue_new_def
  rank_init_def apply_work_lambda_def process_all_lambda_def Let_def local_has_work_def
  local_size_def local_clear_def clear_def work_queue_delete_def work_queue_move_def
  move_assign_def numeral_eq_Suc pq_top_def

lemma policy_pop_length:
  "q \<noteq> [] \<Longrightarrow> length (policy_pop pol q) < length q"
proof (cases pol)
  case (priority_policy cmp)
  assume "q \<noteq> []"
  then have "pq_top cmp q \<in> set q" by (rule pq_top_mem)
  with \<open>q \<noteq> []\<close> priority_policy show ?thesis by (simp add: length_remove1)
qed simp_all

lemma local_process_all_total:
  assumes "\<forall>a u x. snd (m_work_lambda (objects s a) u x) = []"
    and "length (m_local_queue (objects s this)) \<le> fuel"
  shows "\<exists>s'. local_process_all fuel pol this s = Some s' \<and>
           pre_barrier_callbacks s' = pre_barrier_callbacks s \<and>
           (\<forall>a. m_work_lambda (objects s' a) = m_work_lambda (objects s a)) \<and>
           (\<forall>a. length (m_local_queue (objects s' a)) \<le> length (m_local_queue (objects s a)))"
  using assms
proof (induction fuel arbitrary: s)
  case 0
  then show ?case by simp
next
  case (Suc fuel)
  let ?q = "m_local_queue (objects s this)"
  show ?case
  proof (cases "?q = []")
    case True
    then show ?thesis by simp
  next
    case False
    let ?w = "m_work_lambda (objects s this)"
    let ?s1 = "upd_obj this (\<lambda>w. w\<lparr>m_local_queue := policy_pop pol (m_local_queue w)\<rparr>) s
            \<lparr>user_state := fst (?w (user_state s) (policy_top pol ?q))\<rparr>"
    from Suc.prems(1) have "\<forall>u x. snd (?w u x) = []" by simp
    from local_process_all_step[OF this refl False]
    have st: "local_process_all (Suc fuel) pol this s = local_process_all fuel pol this ?s1" .
    from policy_pop_length[OF False, of pol] Suc.prems(2)
    have l: "length (m_local_queue (objects ?s1 this)) \<le> fuel" by simp
    from Suc.prems(1) have "\<forall>a u x. snd (m_work_lambda (objects ?s1 a) u x) = []" by simp
    from Suc.IH[OF this l] obtain s' where
      r: "local_process_all fuel pol this ?s1 = Some s'"
      and c: "pre_barrier_callbacks s' = pre_barrier_callbacks ?s1"
      and w: "\<forall>a. m_work_lambda (objects s' a) = m_work_lambda (objects ?s1 a)"
      and q: "\<forall>a. length (m_local_queue (objects s' a)) \<le> length (m_local_queue (objects ?s1 a))"
      by blast
    from c have c': "pre_barrier_callbacks s' = pre_barrier_callbacks s" by simp
    from w have w': "\<forall>a. m_work_lambda (objects s' a) = m_work_lambda (objects s a)" by simp
    have "\<forall>a. length (m_local_queue (objects s' a)) \<le> length (m_local_queue (objects s a))"
    proof
      fix a
      from q have "length (m_local_queue (objects s' a)) \<le> length (m_local_queue (objects ?s1 a))"
        by blast
      also have "\<dots> \<le> length (m_local_queue (objects s a))"
        using policy_pop_length[OF False, of pol] by simp
      finally show "length (m_local_queue (objects s' a)) \<le> length (m_local_queue (objects s a))" .
    qed
    with st r c' w' show ?thesis by simp
  qed
qed

lemma barrier_total:
  assumes "\<forall>a u x. snd (m_work_lambda (objects s a) u x) = []"
    and "\<forall>a. length (m_local_queue (objects s a)) \<le> m"
    and "length (pre_barrier_callbacks s) + m \<le> fuel"
  shows "\<exists>s'. barrier fuel pol s = Some s'"
  using assms
proof (induction fuel arbitrary: s)
  case 0
  then show ?case by simp
next
  case (Suc fuel)
  show ?case
  proof (cases "pre_barrier_callbacks s")
    case Nil
    then show ?thesis by simp
  next
    case (Cons this cbs)
    let ?s0 = "s\<lparr>pre_barrier_callbacks := cbs\<rparr>"
    from Suc.prems(1) have a0: "\<forall>a u x. snd (m_work_lambda (objects ?s0 a) u x) = []" by simp
    from Suc.prems(2) have "length (m_local_queue (objects s this)) \<le> m" by blast
    with Suc.prems(3) Cons have l0: "length (m_local_queue (objects ?s0 this)) \<le> fuel"
      by simp
    from local_process_all_total[OF a0 l0, of pol] obtain s1 where
      r: "local_process_all fuel pol this ?s0 = Some s1"
      and c: "pre_barrier_callbacks s1 = cbs"
      and w: "\<forall>a. m_work_lambda (objects s1 a) = m_work_lambda (objects s a)"
      and q: "\<forall>a. length (m_local_queue (objects s1 a)) \<le> length (m_local_queue (objects s a))"
      by auto
    let ?s2 = "upd_obj this (\<lambda>w. w\<lparr>m_callback_registered := False\<rparr>) s1"
    from w Suc.prems(1) have a2: "\<forall>a u x. snd (m_work_lambda (objects ?s2 a) u x) = []" by simp
    have q2: "\<forall>a. length (m_local_queue (objects ?s2 a)) \<le> m"
    proof
      fix a
      from q have "length (m_local_queue (objects ?s2 a)) \<le> length (m_local_queue (objects s a))"
        by simp
      with Suc.prems(2) show "length (m_local_queue (objects ?s2 a)) \<le> m"
        using le_trans by blast
    qed
    from c Suc.prems(3) Cons have c2: "length (pre_barrier_callbacks ?s2) + m \<le> fuel" by simp
    from Suc.IH[OF a2 q2 c2] r Cons show ?thesis
      by (simp add: process_all_lambda_def)
  qed
qed

lemma wq_inv_user: "wq_inv s \<Longrightarrow> wq_inv (s\<lparr>user_state := u\<rparr>)"
  by (simp add: wq_inv_def)

lemma work_queue_delete_barrier:
  "work_queue_delete fuel pol this s = Some (Inr s') \<Longrightarrow> barrier fuel pol s = Some s'"
  by (auto simp: work_queue_delete_def split: option.splits if_splits)

lemma reachable_wq_inv: "reachable pol s \<Longrightarrow> wq_inv s"
proof (induction rule: reachable.induct)
  case (reach_init u)
  show ?case by (rule wq_inv_init)
next
  case (reach_user s u)
  then show ?case by (simp add: wq_inv_user)
next
  case (reach_new s this work_fn)
  then show ?case by (simp add: wq_inv_new)
next
  case (reach_insert s this item)
  then show ?case by (simp add: wq_inv_local_insert)
next
  case (reach_process s fuel this s')
  then show ?case using wq_inv_local_process_all by blast
next
  case (reach_local_clear s this)
  then show ?case by (simp add: wq_inv_local_clear)
next
  case (reach_clear s fuel this s')
  from barrier_inv[OF wq_inv_local_clear[OF reach_clear.IH]] reach_clear.hyps(2)
  show ?case by (simp add: clear_def)
next
  case (reach_barrier s fuel s')
  from barrier_inv[OF reach_barrier.IH reach_barrier.hyps(2)] show ?case by simp
next
  case (reach_move s this other)
  then show ?case by (simp add: wq_inv_work_queue_move)
next
  case (reach_assign s this other)
  then show ?case by (simp add: wq_inv_move_assign)
next
  case (reach_delete s fuel this s')
  from barrier_inv[OF reach_delete.IH work_queue_delete_barrier[OF reach_delete.hyps(2)]]
  show ?case by simp
qed

text \<open>
  C7. In every state a program can reach, a barrier that completes leaves every queue of
  the rank empty and every \<open>m_callback_registered\<close> false, and no callback
  registered, whatever the work functions enqueue while the queues are drained.
\<close>

theorem barrier_leaves_queues_empty:
  "reachable pol s \<Longrightarrow> barrier fuel pol s = Some s'
    \<Longrightarrow> (\<forall>a. m_local_queue (objects s' a) = [] \<and> \<not> m_callback_registered (objects s' a)) \<and>
        pre_barrier_callbacks s' = []"
proof -
  assume "reachable pol s" and b: "barrier fuel pol s = Some s'"
  then have "wq_inv s" by (simp add: reachable_wq_inv)
  from barrier_inv[OF this b] have i: "wq_inv s'" and c: "pre_barrier_callbacks s' = []"
    by simp_all
  from i c have f: "\<forall>a. \<not> m_callback_registered (objects s' a)" by (auto simp: wq_inv_def)
  with i have "\<forall>a. m_local_queue (objects s' a) = []" by (auto simp: wq_inv_def)
  with f c show ?thesis by simp
qed

theorem barrier_leaves_queues_empty_witness:
  "\<exists>s'. barrier 10 fifo_policy
          (local_insert fifo_policy 0 (0::nat)
             (work_queue_new 0 (\<lambda>u x. (u @ [x], if x < 3 then [Suc x] else [])) (rank_init [])))
        = Some s' \<and>
      user_state s' = [0, 1, 2, 3] \<and>
      (\<forall>a. m_local_queue (objects s' a) = [] \<and> \<not> m_callback_registered (objects s' a)) \<and>
      pre_barrier_callbacks s' = []"
proof -
  let ?s = "local_insert fifo_policy 0 (0::nat)
     (work_queue_new 0 (\<lambda>u x. (u @ [x], if x < 3 then [Suc x] else [])) (rank_init []))"
  have i: "reachable fifo_policy ?s" by (intro reachable.intros)
  have "\<exists>s'. barrier 10 fifo_policy ?s = Some s' \<and> user_state s' = [0, 1, 2, 3]"
    by (simp add: wq_eval)
  then obtain s' where b: "barrier 10 fifo_policy ?s = Some s'" and u: "user_state s' = [0, 1, 2, 3]"
    by blast
  from barrier_leaves_queues_empty[OF i b] b u show ?thesis by blast
qed

text \<open>
  C8. Items \<open>xs\<close> are inserted into an empty queue and \<open>local_process_all\<close> drains
  it with a work function that enqueues nothing. The work function is applied to the items
  in insertion order under \<open>fifo_policy\<close>, in reverse insertion order under
  \<open>lifo_policy\<close>, and under \<open>priority_policy\<close> in an order in which no item is
  below a later one in the comparator (the comparator being irreflexive and transitive).
\<close>

theorem local_process_all_order:
  assumes "\<forall>u x. snd (w u x) = []"
    and "m_work_lambda (objects s this) = w"
    and "m_local_queue (objects s this) = []"
  shows
    "(\<exists>s'. local_process_all (length xs) fifo_policy this
             (foldl (\<lambda>s1 x. local_insert fifo_policy this x s1) s xs) = Some s' \<and>
           user_state s' = foldl (\<lambda>u x. fst (w u x)) (user_state s) xs) \<and>
     (\<exists>s'. local_process_all (length xs) lifo_policy this
             (foldl (\<lambda>s1 x. local_insert lifo_policy this x s1) s xs) = Some s' \<and>
           user_state s' = foldl (\<lambda>u x. fst (w u x)) (user_state s) (rev xs)) \<and>
     (irreflp cmp \<and> transp cmp \<longrightarrow>
        (\<exists>s' ys. local_process_all (length xs) (priority_policy cmp) this
             (foldl (\<lambda>s1 x. local_insert (priority_policy cmp) this x s1) s xs) = Some s' \<and>
           user_state s' = foldl (\<lambda>u x. fst (w u x)) (user_state s) ys \<and>
           mset ys = mset xs \<and> sorted_wrt (\<lambda>x y. \<not> cmp x y) ys))"
proof (intro conjI impI)
  let ?ins = "\<lambda>pol. foldl (\<lambda>s1 x. local_insert pol this x s1) s xs"
  have q: "\<And>pol. m_local_queue (objects (?ins pol) this) = xs"
    using assms(3) by (simp add: inserts_queue)
  have wl: "\<And>pol. m_work_lambda (objects (?ins pol) this) = w"
    using assms(2) by (simp add: inserts_work)
  have u: "\<And>pol. user_state (?ins pol) = user_state s" by (simp add: inserts_user)
  from drain_fifo[OF assms(1) wl, of fifo_policy "length xs"] q u
  show "\<exists>s'. local_process_all (length xs) fifo_policy this (?ins fifo_policy) = Some s' \<and>
           user_state s' = foldl (\<lambda>u x. fst (w u x)) (user_state s) xs"
    by simp
  from drain_lifo[OF assms(1) wl, of lifo_policy "length xs"] q u
  show "\<exists>s'. local_process_all (length xs) lifo_policy this (?ins lifo_policy) = Some s' \<and>
           user_state s' = foldl (\<lambda>u x. fst (w u x)) (user_state s) (rev xs)"
    by simp
  assume "irreflp cmp \<and> transp cmp"
  then have c: "irreflp cmp" "transp cmp" by simp_all
  from drain_priority[OF assms(1) c wl, of "priority_policy cmp" "length xs"] q u
  show "\<exists>s' ys. local_process_all (length xs) (priority_policy cmp) this
             (?ins (priority_policy cmp)) = Some s' \<and>
           user_state s' = foldl (\<lambda>u x. fst (w u x)) (user_state s) ys \<and>
           mset ys = mset xs \<and> sorted_wrt (\<lambda>x y. \<not> cmp x y) ys"
    by simp
qed

theorem local_process_all_order_witness:
  "(\<exists>s'. local_process_all (length [2, 3, 1::nat]) fifo_policy 0
           (foldl (\<lambda>s1 x. local_insert fifo_policy 0 x s1)
              (work_queue_new 0 (\<lambda>u x. (u @ [x], [])) (rank_init [])) [2, 3, 1::nat]) = Some s' \<and>
         user_state s' = [2, 3, 1::nat]) \<and>
   (\<exists>s'. local_process_all (length [2, 3, 1::nat]) lifo_policy 0
           (foldl (\<lambda>s1 x. local_insert lifo_policy 0 x s1)
              (work_queue_new 0 (\<lambda>u x. (u @ [x], [])) (rank_init [])) [2, 3, 1::nat]) = Some s' \<and>
         user_state s' = [1, 3, 2::nat]) \<and>
   (\<exists>s' ys. local_process_all (length [2, 3, 1::nat]) (priority_policy (<)) 0
           (foldl (\<lambda>s1 x. local_insert (priority_policy (<)) 0 x s1)
              (work_queue_new 0 (\<lambda>u x. (u @ [x], [])) (rank_init [])) [2, 3, 1::nat]) = Some s' \<and>
         user_state s' = ys \<and> mset ys = mset [2, 3, 1::nat] \<and>
         sorted_wrt (\<lambda>x y. \<not> x < y) ys)"
proof -
  let ?w = "\<lambda>(u::nat list) (x::nat). (u @ [x], []::nat list)"
  let ?s = "work_queue_new 0 ?w (rank_init [])"
  have h1: "\<forall>u x. snd (?w u x) = []" by simp
  have h2: "m_work_lambda (objects ?s 0) = ?w" by (simp add: wq_eval)
  have h3: "m_local_queue (objects ?s 0) = []" by (simp add: wq_eval)
  have h4: "irreflp ((<) :: nat \<Rightarrow> nat \<Rightarrow> bool) \<and> transp ((<) :: nat \<Rightarrow> nat \<Rightarrow> bool)"
    by (simp add: irreflp_def transp_def)
  have u: "user_state ?s = []" by (simp add: wq_eval)
  have f: "\<And>ys. foldl (\<lambda>u x. fst (?w u x)) [] ys = ys"
  proof -
    fix ys :: "nat list"
    have "\<And>acc. foldl (\<lambda>u x. fst (?w u x)) acc ys = acc @ ys"
      by (induction ys) simp_all
    then show "foldl (\<lambda>u x. fst (?w u x)) [] ys = ys" by simp
  qed
  from local_process_all_order[OF h1 h2 h3, of "[2, 3, 1]" "(<)"] h4
  show ?thesis unfolding u f by simp
qed

text \<open>
  What the two moves do to destination and source. Both hand over the container, register
  the destination when the container holds items, and leave the source empty and
  unregistered; only the move constructor hands over the work function.
\<close>

lemma work_queue_move_effect:
  assumes "this \<noteq> other"
  shows "m_local_queue (objects (work_queue_move pol this other s) this)
           = m_local_queue (objects s other)"
    and "m_work_lambda (objects (work_queue_move pol this other s) this)
           = m_work_lambda (objects s other)"
    and "m_callback_registered (objects (work_queue_move pol this other s) this)
           \<longleftrightarrow> m_local_queue (objects s other) \<noteq> []"
    and "m_local_queue (objects s other) \<noteq> []
           \<Longrightarrow> this \<in> set (pre_barrier_callbacks (work_queue_move pol this other s))"
    and "m_local_queue (objects (work_queue_move pol this other s) other) = []"
    and "\<not> m_callback_registered (objects (work_queue_move pol this other s) other)"
  using assms by (simp_all add: work_queue_move_def Let_def local_has_work_def)

lemma move_assign_effect:
  assumes "this \<noteq> other"
  shows "m_local_queue (objects (move_assign pol this other s) this)
           = m_local_queue (objects s other)"
    and "m_work_lambda (objects (move_assign pol this other s) this)
           = m_work_lambda (objects s this)"
    and "m_callback_registered (objects (move_assign pol this other s) this)
           \<longleftrightarrow> m_local_queue (objects s other) \<noteq> []"
    and "m_local_queue (objects s other) \<noteq> []
           \<Longrightarrow> this \<in> set (pre_barrier_callbacks (move_assign pol this other s))"
    and "m_local_queue (objects (move_assign pol this other s) other) = []"
    and "\<not> m_callback_registered (objects (move_assign pol this other s) other)"
  using assms by (simp_all add: move_assign_def Let_def local_has_work_def)

text \<open>
  C9. The queue at address 0 has a work function that records the item, the queue at
  address 1 one that records the item plus 100. Item 7 is inserted into queue 0. After
  \<open>wq1 = std::move(wq0)\<close> the barrier records 107: the item was transferred, the work
  function was not. After the move constructor the barrier records 7.
\<close>

theorem move_assign_keeps_work_lambda:
  "map_option user_state (barrier 5 fifo_policy
     (move_assign fifo_policy 1 0
       (local_insert fifo_policy 0 (7::nat)
         (work_queue_new 1 (\<lambda>u x. (u @ [x + 100], []))
           (work_queue_new 0 (\<lambda>u x. (u @ [x], [])) (rank_init []))))))
     = Some [107] \<and>
   map_option user_state (barrier 5 fifo_policy
     (work_queue_move fifo_policy 2 0
       (local_insert fifo_policy 0 (7::nat)
         (work_queue_new 1 (\<lambda>u x. (u @ [x + 100], []))
           (work_queue_new 0 (\<lambda>u x. (u @ [x], [])) (rank_init []))))))
     = Some [7]"
  by (simp add: wq_eval)

lemma wq_inv_nonempty_registered: "wq_inv s \<Longrightarrow> nonempty_registered s"
  by (simp add: wq_inv_def nonempty_registered_def)

lemma nonempty_registered_grows:
  assumes "nonempty_registered s" "grows this s s'" "m_local_queue (objects s' this) = []"
  shows "nonempty_registered s'"
  unfolding nonempty_registered_def
proof (intro allI impI)
  fix a assume "m_local_queue (objects s' a) \<noteq> []"
  with assms show "m_callback_registered (objects s' a)"
    by (cases "a = this") (auto simp: nonempty_registered_def grows_def)
qed

lemma nonempty_registered_local_insert:
  "nonempty_registered s \<Longrightarrow> nonempty_registered (local_insert pol this x s)"
  unfolding nonempty_registered_def
  by (auto simp: local_insert_queue local_insert_flag)

lemma nonempty_registered_local_process_all:
  "nonempty_registered s \<Longrightarrow> local_process_all fuel pol this s = Some s'
    \<Longrightarrow> nonempty_registered s'"
  using local_process_all_grows nonempty_registered_grows by blast

lemma nonempty_registered_local_clear:
  "nonempty_registered s \<Longrightarrow> nonempty_registered (local_clear this s)"
  unfolding nonempty_registered_def local_clear_def by auto

lemma nonempty_registered_process_all_lambda:
  assumes "nonempty_registered s"
    and run: "process_all_lambda fuel pol this (s\<lparr>pre_barrier_callbacks := cbs\<rparr>) = Some s'"
  shows "nonempty_registered s'"
proof -
  let ?s0 = "s\<lparr>pre_barrier_callbacks := cbs\<rparr>"
  from run obtain s1 where l: "local_process_all fuel pol this ?s0 = Some s1"
    and s': "s' = upd_obj this (\<lambda>w. w\<lparr>m_callback_registered := False\<rparr>) s1"
    by (auto simp: process_all_lambda_def split: option.splits)
  from assms(1) have "nonempty_registered ?s0" by (simp add: nonempty_registered_def)
  from nonempty_registered_local_process_all[OF this l] have i: "nonempty_registered s1" .
  from local_process_all_grows[OF l] have "m_local_queue (objects s1 this) = []" by simp
  with i show ?thesis unfolding s' nonempty_registered_def by auto
qed

lemma nonempty_registered_barrier:
  "nonempty_registered s \<Longrightarrow> barrier fuel pol s = Some s' \<Longrightarrow> nonempty_registered s'"
proof (induction fuel arbitrary: s)
  case 0
  then show ?case by (auto split: if_splits)
next
  case (Suc fuel)
  show ?case
  proof (cases "pre_barrier_callbacks s")
    case Nil
    with Suc.prems show ?thesis by auto
  next
    case (Cons this cbs)
    with Suc.prems obtain s1 where
      p: "process_all_lambda fuel pol this (s\<lparr>pre_barrier_callbacks := cbs\<rparr>) = Some s1"
      and b: "barrier fuel pol s1 = Some s'"
      by (auto split: option.splits)
    from nonempty_registered_process_all_lambda[OF Suc.prems(1) p]
    have "nonempty_registered s1" .
    from Suc.IH[OF this b] show ?thesis .
  qed
qed

lemma nonempty_registered_work_queue_move:
  "nonempty_registered s \<Longrightarrow> nonempty_registered (work_queue_move pol this other s)"
  unfolding nonempty_registered_def work_queue_move_def
  by (simp add: Let_def local_has_work_def)

lemma nonempty_registered_move_assign:
  "nonempty_registered s \<Longrightarrow> nonempty_registered (move_assign pol this other s)"
  unfolding nonempty_registered_def move_assign_def
  by (simp add: Let_def local_has_work_def)

text \<open>
  C10. Every public operation keeps the invariant of the queue: one that holds items has
  \<open>m_callback_registered\<close> set. Together with its companion (a set flag has a
  registered callback behind it) the invariant is kept as well, and then the destructor's
  barrier, when it returns, leaves the queue empty and the assertion
  \<open>local_size() == 0\<close> holds; the destructor does return when no work function
  enqueues items.
\<close>

theorem work_queue_operations_keep_invariant:
  "(nonempty_registered s \<longrightarrow>
      nonempty_registered (local_insert pol this x s) \<and>
      (\<forall>s'. local_process_all fuel pol this s = Some s' \<longrightarrow> nonempty_registered s') \<and>
      nonempty_registered (local_clear this s) \<and>
      (\<forall>s'. clear fuel pol this s = Some s' \<longrightarrow> nonempty_registered s') \<and>
      nonempty_registered (work_queue_move pol this other s) \<and>
      nonempty_registered (move_assign pol this other s)) \<and>
   (wq_inv s \<longrightarrow>
      wq_inv (local_insert pol this x s) \<and>
      (\<forall>s'. local_process_all fuel pol this s = Some s' \<longrightarrow> wq_inv s') \<and>
      wq_inv (local_clear this s) \<and>
      (\<forall>s'. clear fuel pol this s = Some s' \<longrightarrow> wq_inv s') \<and>
      wq_inv (work_queue_move pol this other s) \<and>
      wq_inv (move_assign pol this other s) \<and>
      (\<forall>r. work_queue_delete fuel pol this s = Some r \<longrightarrow>
         (\<exists>s'. r = Inr s' \<and> wq_inv s' \<and> m_local_queue (objects s' this) = [])) \<and>
      ((\<forall>a u x. snd (m_work_lambda (objects s a) u x) = []) \<and>
       (\<forall>a. length (m_local_queue (objects s a)) \<le> m) \<and>
       length (pre_barrier_callbacks s) + m \<le> fuel
         \<longrightarrow> (\<exists>s'. work_queue_delete fuel pol this s = Some (Inr s'))))"
proof (intro conjI impI)
  assume i: "nonempty_registered s"
  show "nonempty_registered (local_insert pol this x s)"
    using i by (rule nonempty_registered_local_insert)
  show "\<forall>s'. local_process_all fuel pol this s = Some s' \<longrightarrow> nonempty_registered s'"
    using i nonempty_registered_local_process_all by blast
  show "nonempty_registered (local_clear this s)"
    using i by (rule nonempty_registered_local_clear)
  show "\<forall>s'. clear fuel pol this s = Some s' \<longrightarrow> nonempty_registered s'"
    using nonempty_registered_barrier[OF nonempty_registered_local_clear[OF i]]
    by (simp add: clear_def)
  show "nonempty_registered (work_queue_move pol this other s)"
    using i by (rule nonempty_registered_work_queue_move)
  show "nonempty_registered (move_assign pol this other s)"
    using i by (rule nonempty_registered_move_assign)
next
  assume i: "wq_inv s"
  show "wq_inv (local_insert pol this x s)" using i by (rule wq_inv_local_insert)
  show "\<forall>s'. local_process_all fuel pol this s = Some s' \<longrightarrow> wq_inv s'"
    using i wq_inv_local_process_all by blast
  show "wq_inv (local_clear this s)" using i by (rule wq_inv_local_clear)
  show "\<forall>s'. clear fuel pol this s = Some s' \<longrightarrow> wq_inv s'"
    using barrier_inv[OF wq_inv_local_clear[OF i]] by (simp add: clear_def)
  show "wq_inv (work_queue_move pol this other s)" using i by (rule wq_inv_work_queue_move)
  show "wq_inv (move_assign pol this other s)" using i by (rule wq_inv_move_assign)
  show d: "\<forall>r. work_queue_delete fuel pol this s = Some r \<longrightarrow>
        (\<exists>s'. r = Inr s' \<and> wq_inv s' \<and> m_local_queue (objects s' this) = [])"
  proof (intro allI impI)
    fix r assume r: "work_queue_delete fuel pol this s = Some r"
    then obtain s1 where b: "barrier fuel pol s = Some s1"
      by (auto simp: work_queue_delete_def split: option.splits)
    from barrier_inv[OF i b] have i1: "wq_inv s1" and c: "pre_barrier_callbacks s1 = []"
      by simp_all
    from i1 c have e: "m_local_queue (objects s1 this) = []" by (auto simp: wq_inv_def)
    with r b have "r = Inr s1" by (simp add: work_queue_delete_def local_size_def)
    with i1 e show "\<exists>s'. r = Inr s' \<and> wq_inv s' \<and> m_local_queue (objects s' this) = []"
      by blast
  qed
  assume a: "(\<forall>a u x. snd (m_work_lambda (objects s a) u x) = []) \<and>
      (\<forall>a. length (m_local_queue (objects s a)) \<le> m) \<and>
      length (pre_barrier_callbacks s) + m \<le> fuel"
  then obtain s1 where "barrier fuel pol s = Some s1"
    using barrier_total[of s m fuel pol] by blast
  then obtain r where r: "work_queue_delete fuel pol this s = Some r"
    by (simp add: work_queue_delete_def)
  with d show "\<exists>s'. work_queue_delete fuel pol this s = Some (Inr s')" by blast
qed

theorem work_queue_operations_keep_invariant_witness:
  "nonempty_registered (local_insert fifo_policy 0 (5::nat)
      (local_insert fifo_policy 0 7
         (work_queue_new 0 (\<lambda>u x. (u @ [x], [])) (rank_init ([]::nat list))))) \<and>
   wq_inv (move_assign fifo_policy 1 0
      (local_insert fifo_policy 0 (7::nat)
         (work_queue_new 0 (\<lambda>u x. (u @ [x], [])) (rank_init ([]::nat list))))) \<and>
   (\<exists>s'. work_queue_delete 2 fifo_policy 0
      (local_insert fifo_policy 0 (7::nat)
         (work_queue_new 0 (\<lambda>u x. (u @ [x], [])) (rank_init ([]::nat list))))
        = Some (Inr s') \<and> user_state s' = [7])"
proof -
  let ?s = "local_insert fifo_policy 0 (7::nat)
      (work_queue_new 0 (\<lambda>u x. (u @ [x], [])) (rank_init ([]::nat list)))"
  have i: "wq_inv ?s" by (simp add: wq_inv_def wq_eval)
  have n: "nonempty_registered ?s" by (simp add: nonempty_registered_def wq_eval)
  have a: "(\<forall>a u x. snd (m_work_lambda (objects ?s a) u x) = []) \<and>
      (\<forall>a. length (m_local_queue (objects ?s a)) \<le> 1) \<and>
      length (pre_barrier_callbacks ?s) + 1 \<le> 2"
    by (simp add: wq_eval)
  have u: "map_option (map_sum id user_state) (work_queue_delete 2 fifo_policy 0 ?s)
     = Some (Inr [7])"
    by (simp add: wq_eval)
  from work_queue_operations_keep_invariant[where s = ?s and pol = fifo_policy and this = 0
      and x = 5 and fuel = 2 and m = 1] i n a
  have "nonempty_registered (local_insert fifo_policy 0 5 ?s)"
    "\<exists>s'. work_queue_delete 2 fifo_policy 0 ?s = Some (Inr s')"
    by blast+
  moreover from work_queue_operations_keep_invariant[where s = ?s and pol = fifo_policy
      and this = 1 and other = 0] i
  have "wq_inv (move_assign fifo_policy 1 0 ?s)" by blast
  ultimately have "nonempty_registered (local_insert fifo_policy 0 5 ?s)"
    "wq_inv (move_assign fifo_policy 1 0 ?s)"
    "\<exists>s'. work_queue_delete 2 fifo_policy 0 ?s = Some (Inr s')"
    by blast+
  with u show ?thesis by auto
qed

end
